theory Spec2Isabelle
  imports Main "HOL-Library.Word"
begin

unbundle bit_operations_syntax

section \<open>Data model of the cache simulator\<close>

text \<open>
  The simulator (the complete \<^verbatim>\<open>csim.c\<close>) keeps a cache as an array of sets, each an
  array of \<^verbatim>\<open>E\<close> lines, and five global \<^verbatim>\<open>unsigned long\<close> counters. An
  \<^verbatim>\<open>unsigned long\<close> is a 64-bit word whose arithmetic wraps around; the two \<^verbatim>\<open>int\<close>
  flags of a line are only ever assigned 0 or 1 and compared with 0 or 1, so they are
  kept as integers.
\<close>

type_synonym ulong = "64 word"

record line_t =
  valid :: int
  dirty_bit :: int
  tag :: ulong
  LRU_counter :: ulong

record set_t =
  lines :: "line_t list"

text \<open>
  The geometry fields of \<^verbatim>\<open>cache_t\<close> are \<^verbatim>\<open>s\<close>, \<^verbatim>\<open>E\<close> and \<^verbatim>\<open>b\<close> in the source;
  they carry a prefix here so that the single letters stay free for variables. The
  driver rejects negative values before a cache is built, so they are naturals.
\<close>

record cache_t =
  cache_s :: nat
  cache_E :: nat
  cache_b :: nat
  sets :: "set_t list"

text \<open>The five global counters \<^verbatim>\<open>hit\<close>, \<^verbatim>\<open>miss\<close>, \<^verbatim>\<open>eviction\<close>, \<^verbatim>\<open>dirty_bytes\<close>
  and \<^verbatim>\<open>dirty_evictions\<close>, all starting at 0.\<close>

record globals =
  hit :: ulong
  miss :: ulong
  eviction :: ulong
  dirty_bytes :: ulong
  dirty_evictions :: ulong

definition globals_init :: globals where
  "globals_init =
     \<lparr>hit = 0, miss = 0, eviction = 0, dirty_bytes = 0, dirty_evictions = 0\<rparr>"

text \<open>
  Modelled from the spec: the declaration of \<^verbatim>\<open>csim_stats_t\<close> lives in
  \<^verbatim>\<open>cachelab.h\<close>, which is not among the sources. The driver fills five fields
  (\<^verbatim>\<open>hits\<close>, \<^verbatim>\<open>misses\<close>, \<^verbatim>\<open>evictions\<close>, \<^verbatim>\<open>dirty_bytes\<close>, \<^verbatim>\<open>dirty_evictions\<close>) from
  the five globals; the last two carry a prefix here because the globals already use
  those names.
\<close>

record csim_stats_t =
  hits :: ulong
  misses :: ulong
  evictions :: ulong
  stats_dirty_bytes :: ulong
  stats_dirty_evictions :: ulong

text \<open>One record of the trace, as the driver's \<^verbatim>\<open>fscanf\<close> delivers it.\<close>

record access_t =
  access_type :: char
  address :: ulong
  size :: int

datatype error = Invalid_input | Tracefile_error

section \<open>Construction\<close>

definition line_init :: line_t where
  "line_init = \<lparr>valid = 0, dirty_bit = 0, tag = 0, LRU_counter = 0\<rparr>"

text \<open>\<^verbatim>\<open>cache_init\<close>: \<^verbatim>\<open>1 << s\<close> sets of \<^verbatim>\<open>E\<close> lines, every field of every line 0.
  Allocation is taken to succeed.\<close>

definition cache_init :: "nat \<Rightarrow> nat \<Rightarrow> nat \<Rightarrow> cache_t" where
  "cache_init sn En bn =
     \<lparr>cache_s = sn, cache_E = En, cache_b = bn,
      sets = replicate (2 ^ sn) \<lparr>lines = replicate En line_init\<rparr>\<rparr>"

section \<open>The replacement engine\<close>

text \<open>\<^verbatim>\<open>add_LRU_counter\<close>: increment the counters of the lines at
  \<^verbatim>\<open>begin_index .. end_index - 1\<close>.\<close>

function add_LRU_counter :: "line_t list \<Rightarrow> nat \<Rightarrow> nat \<Rightarrow> line_t list" where
  "add_LRU_counter ls i end_index =
     (if i < end_index
      then add_LRU_counter
             (ls[i := (ls ! i)\<lparr>LRU_counter := LRU_counter (ls ! i) + 1\<rparr>]) (i + 1) end_index
      else ls)"
  by pat_completeness auto
termination
  by (relation "measure (\<lambda>(ls, i, end_index). end_index - i)") auto

declare add_LRU_counter.simps [simp del]

text \<open>
  The first loop of \<^verbatim>\<open>cache_sim\<close>: look for a valid line with the tag. The line found
  gets counter 0 and the loop breaks with its index (\<^verbatim>\<open>hit_flag\<close> and \<^verbatim>\<open>hit_index\<close>
  are the option returned); every line passed over is aged. The source also counts the
  hit inside the loop; here \<^verbatim>\<open>cache_sim\<close> does so when the loop returns an index.
\<close>

function hit_scan :: "line_t list \<Rightarrow> ulong \<Rightarrow> nat \<Rightarrow> nat \<Rightarrow> line_t list \<times> nat option" where
  "hit_scan ls tg En i =
     (if i < En
      then (if tag (ls ! i) = tg \<and> valid (ls ! i) = 1
            then (ls[i := (ls ! i)\<lparr>LRU_counter := 0\<rparr>], Some i)
            else hit_scan
                   (ls[i := (ls ! i)\<lparr>LRU_counter := LRU_counter (ls ! i) + 1\<rparr>]) tg En (i + 1))
      else (ls, None))"
  by pat_completeness auto
termination
  by (relation "measure (\<lambda>(ls, tg, En, i). En - i)") auto

declare hit_scan.simps [simp del]

text \<open>
  The second loop: look for an invalid line. The line found is filled (valid, the tag,
  counter 0) and the loop breaks with its index (\<^verbatim>\<open>flag\<close> and \<^verbatim>\<open>index\<close>); every
  line passed over is aged.
\<close>

function fill_scan :: "line_t list \<Rightarrow> ulong \<Rightarrow> nat \<Rightarrow> nat \<Rightarrow> line_t list \<times> nat option" where
  "fill_scan ls tg En i =
     (if i < En
      then (if valid (ls ! i) = 0
            then (ls[i := (ls ! i)\<lparr>valid := 1, tag := tg, LRU_counter := 0\<rparr>], Some i)
            else fill_scan
                   (ls[i := (ls ! i)\<lparr>LRU_counter := LRU_counter (ls ! i) + 1\<rparr>]) tg En (i + 1))
      else (ls, None))"
  by pat_completeness auto
termination
  by (relation "measure (\<lambda>(ls, tg, En, i). En - i)") auto

declare fill_scan.simps [simp del]

text \<open>
  The third loop: choose the victim. \<^verbatim>\<open>max_counter\<close> is read once from line 0 and the
  loop body never assigns it; \<^verbatim>\<open>evict_index\<close> is overwritten by every later line whose
  counter exceeds it.
\<close>

function evict_scan :: "line_t list \<Rightarrow> nat \<Rightarrow> ulong \<Rightarrow> nat \<Rightarrow> nat \<Rightarrow> nat" where
  "evict_scan ls En max_counter i evict_index =
     (if i < En
      then (if LRU_counter (ls ! i) > max_counter
            then evict_scan ls En max_counter (i + 1) i
            else evict_scan ls En max_counter (i + 1) evict_index)
      else evict_index)"
  by pat_completeness auto
termination
  by (relation "measure (\<lambda>(ls, En, max_counter, i, evict_index). En - i)") auto

declare evict_scan.simps [simp del]

text \<open>
  \<^verbatim>\<open>B = (unsigned long)(1 << b)\<close>. The shift is on a 32-bit \<^verbatim>\<open>int\<close> and the result is
  converted to \<^verbatim>\<open>unsigned long\<close> with its sign: it is \<open>2 ^ b\<close> for \<open>b < 31\<close>, and for
  \<open>b = 31\<close>, which the driver accepts, it is \<open>2 ^ 64 - 2 ^ 31\<close>. From 32 on the shift
  count reaches the width of \<^verbatim>\<open>int\<close> and C does not define the result; every statement
  below that names the block size is for \<open>b < 31\<close>.
\<close>

definition block_size :: "nat \<Rightarrow> ulong" where
  "block_size bn = scast (push_bit bn (1 :: 32 word))"

text \<open>
  \<^verbatim>\<open>cache_sim\<close>, with the set and the globals passed in and returned. The
  \<^verbatim>\<open>verbose\<close> flag only selects what is printed and is left out. \<^verbatim>\<open>En\<close> is the
  parameter \<^verbatim>\<open>E\<close>; the set must hold \<^verbatim>\<open>E \<ge> 1\<close> lines, as the driver guarantees.
\<close>

definition cache_sim ::
    "char \<Rightarrow> set_t \<Rightarrow> ulong \<Rightarrow> nat \<Rightarrow> nat \<Rightarrow> globals \<Rightarrow> set_t \<times> globals" where
  "cache_sim ty set_access tg En bn g =
     (let B = block_size bn in
      case hit_scan (lines set_access) tg En 0 of
        (ls1, Some hit_index) \<Rightarrow>
          (let g1 = g\<lparr>hit := hit g + 1\<rparr>;
               ls2 = add_LRU_counter ls1 (hit_index + 1) En
           in if ty = CHR ''S'' \<and> dirty_bit (ls2 ! hit_index) = 0
              then (\<lparr>lines = ls2[hit_index := (ls2 ! hit_index)\<lparr>dirty_bit := 1\<rparr>]\<rparr>,
                    g1\<lparr>dirty_bytes := dirty_bytes g1 + B\<rparr>)
              else (\<lparr>lines = ls2\<rparr>, g1))
      | (ls1, None) \<Rightarrow>
          (let g1 = g\<lparr>miss := miss g + 1\<rparr> in
           case fill_scan ls1 tg En 0 of
             (ls2, Some index) \<Rightarrow>
               (let ls3 = add_LRU_counter ls2 (index + 1) En
                in if ty = CHR ''S''
                   then (\<lparr>lines = ls3[index := (ls3 ! index)\<lparr>dirty_bit := 1\<rparr>]\<rparr>,
                         g1\<lparr>dirty_bytes := dirty_bytes g1 + B\<rparr>)
                   else (\<lparr>lines = ls3\<rparr>, g1))
           | (ls2, None) \<Rightarrow>
               (let g2 = g1\<lparr>eviction := eviction g1 + 1\<rparr>;
                    evict_index = evict_scan ls2 En (LRU_counter (ls2 ! 0)) 1 0;
                    ls3 = ls2[evict_index := (ls2 ! evict_index)\<lparr>tag := tg, LRU_counter := 0\<rparr>];
                    ls4 = add_LRU_counter ls3 0 evict_index;
                    ls5 = add_LRU_counter ls4 (evict_index + 1) En
                in if dirty_bit (ls5 ! evict_index) = 0 \<and> ty = CHR ''S''
                   then (\<lparr>lines = ls5[evict_index := (ls5 ! evict_index)\<lparr>dirty_bit := 1\<rparr>]\<rparr>,
                         g2\<lparr>dirty_bytes := dirty_bytes g2 + B\<rparr>)
                   else if dirty_bit (ls5 ! evict_index) = 1
                   then (let (ls6, g3) =
                               (if ty = CHR ''L''
                                then (ls5[evict_index := (ls5 ! evict_index)\<lparr>dirty_bit := 0\<rparr>],
                                      g2\<lparr>dirty_bytes := dirty_bytes g2 - B,
                                         dirty_evictions := dirty_evictions g2 + B\<rparr>)
                                else (ls5, g2))
                         in if ty = CHR ''S''
                            then (\<lparr>lines = ls6[evict_index := (ls6 ! evict_index)\<lparr>dirty_bit := 1\<rparr>]\<rparr>,
                                  g3\<lparr>dirty_evictions := dirty_evictions g3 + B\<rparr>)
                            else (\<lparr>lines = ls6\<rparr>, g3))
                   else (\<lparr>lines = ls5\<rparr>, g2))))"

section \<open>The driver\<close>

text \<open>
  The body of the driver's loop for one record: decode the set index
  \<^verbatim>\<open>(address >> b) & ((1 << s) - 1)\<close> and the tag \<^verbatim>\<open>address >> (s + b)\<close>,
  then run \<^verbatim>\<open>cache_sim\<close> on that set for a load or a store, and stop with
  \<^verbatim>\<open>Tracefile error\<close> for anything else. The mask \<^verbatim>\<open>(1 << s) - 1\<close> is an \<^verbatim>\<open>int\<close>
  (defined for \<^verbatim>\<open>s < 31\<close>), and the shift by \<^verbatim>\<open>s + b\<close> is defined below 64.
\<close>

definition set_index_of :: "nat \<Rightarrow> nat \<Rightarrow> ulong \<Rightarrow> ulong" where
  "set_index_of sn bn a = drop_bit bn a AND (push_bit sn 1 - 1)"

definition tag_of :: "nat \<Rightarrow> nat \<Rightarrow> ulong \<Rightarrow> ulong" where
  "tag_of sn bn a = drop_bit (sn + bn) a"

definition access :: "cache_t \<Rightarrow> globals \<Rightarrow> access_t \<Rightarrow> error + cache_t \<times> globals" where
  "access cache g r =
     (let set_index = set_index_of (cache_s cache) (cache_b cache) (address r);
          tg = tag_of (cache_s cache) (cache_b cache) (address r);
          set_access = sets cache ! unat set_index
      in if access_type r = CHR ''L'' \<or> access_type r = CHR ''S''
         then (let (set', g') =
                     cache_sim (access_type r) set_access tg (cache_E cache) (cache_b cache) g
               in Inr (cache\<lparr>sets := (sets cache)[unat set_index := set']\<rparr>, g'))
         else Inl Tracefile_error)"

text \<open>The \<^verbatim>\<open>while\<close> loop over the records of the trace.\<close>

fun main_loop :: "cache_t \<Rightarrow> globals \<Rightarrow> access_t list \<Rightarrow> error + cache_t \<times> globals" where
  "main_loop cache g [] = Inr (cache, g)"
| "main_loop cache g (r # rs) =
     (case access cache g r of
        Inl e \<Rightarrow> Inl e
      | Inr (cache', g') \<Rightarrow> main_loop cache' g' rs)"

text \<open>
  \<^verbatim>\<open>main\<close> after option parsing: the geometry check, the construction, the loop, and
  the statistics handed to \<^verbatim>\<open>printSummary\<close>. An error return prints no summary.
\<close>

definition csim_main :: "int \<Rightarrow> int \<Rightarrow> int \<Rightarrow> access_t list \<Rightarrow> error + csim_stats_t" where
  "csim_main s_arg E_arg b_arg trace =
     (if s_arg < 0 \<or> E_arg \<le> 0 \<or> b_arg < 0 then Inl Invalid_input
      else case main_loop (cache_init (nat s_arg) (nat E_arg) (nat b_arg)) globals_init trace of
             Inl e \<Rightarrow> Inl e
           | Inr (cache, g) \<Rightarrow>
               Inr \<lparr>hits = hit g, misses = miss g, evictions = eviction g,
                    stats_dirty_bytes = dirty_bytes g,
                    stats_dirty_evictions = dirty_evictions g\<rparr>)"

section \<open>Closed forms of one access\<close>

text \<open>
  The definitions of this section are not code of the simulator. They describe, without
  loops, what one call of \<^verbatim>\<open>cache_sim\<close> does to a set: which of the three paths it
  takes, which line it touches, what that line becomes, by how much the other lines age,
  and what happens to the globals. The lemmas below prove that \<^verbatim>\<open>cache_sim\<close> computes
  exactly this.
\<close>

definition aged :: "ulong \<Rightarrow> line_t \<Rightarrow> line_t" where
  "aged d l = l\<lparr>LRU_counter := LRU_counter l + d\<rparr>"

definition is_hit :: "ulong \<Rightarrow> line_t \<Rightarrow> bool" where
  "is_hit tg l \<longleftrightarrow> tag l = tg \<and> valid l = 1"

definition is_invalid :: "line_t \<Rightarrow> bool" where
  "is_invalid l \<longleftrightarrow> valid l = 0"

definition first_hit :: "line_t list \<Rightarrow> ulong \<Rightarrow> nat \<Rightarrow> bool" where
  "first_hit ls tg k \<longleftrightarrow>
     k < length ls \<and> is_hit tg (ls ! k) \<and> (\<forall>j<k. \<not> is_hit tg (ls ! j))"

definition no_hit :: "line_t list \<Rightarrow> ulong \<Rightarrow> bool" where
  "no_hit ls tg \<longleftrightarrow> (\<forall>j<length ls. \<not> is_hit tg (ls ! j))"

definition first_invalid :: "line_t list \<Rightarrow> nat \<Rightarrow> bool" where
  "first_invalid ls k \<longleftrightarrow>
     k < length ls \<and> is_invalid (ls ! k) \<and> (\<forall>j<k. \<not> is_invalid (ls ! j))"

definition no_invalid :: "line_t list \<Rightarrow> bool" where
  "no_invalid ls \<longleftrightarrow> (\<forall>j<length ls. \<not> is_invalid (ls ! j))"

text \<open>
  The victim \<^verbatim>\<open>cache_sim\<close> selects in a set with no hit and no invalid line: the victim
  loop, run on the counters as the two scans leave them (each has aged every line by 1).
\<close>

definition victim_index :: "line_t list \<Rightarrow> nat" where
  "victim_index ls =
     evict_scan (map (aged 2) ls) (length ls) (LRU_counter (aged 2 (ls ! 0))) 1 0"

definition hit_line :: "char \<Rightarrow> line_t \<Rightarrow> line_t" where
  "hit_line ty l =
     l\<lparr>LRU_counter := 0,
       dirty_bit := (if ty = CHR ''S'' \<and> dirty_bit l = 0 then 1 else dirty_bit l)\<rparr>"

definition hit_globals :: "char \<Rightarrow> nat \<Rightarrow> line_t \<Rightarrow> globals \<Rightarrow> globals" where
  "hit_globals ty bn l g =
     g\<lparr>hit := hit g + 1,
       dirty_bytes := (if ty = CHR ''S'' \<and> dirty_bit l = 0
                       then dirty_bytes g + block_size bn else dirty_bytes g)\<rparr>"

definition fill_line :: "char \<Rightarrow> ulong \<Rightarrow> line_t \<Rightarrow> line_t" where
  "fill_line ty tg l =
     l\<lparr>valid := 1, tag := tg, LRU_counter := 0,
       dirty_bit := (if ty = CHR ''S'' then 1 else dirty_bit l)\<rparr>"

definition fill_globals :: "char \<Rightarrow> nat \<Rightarrow> globals \<Rightarrow> globals" where
  "fill_globals ty bn g =
     g\<lparr>miss := miss g + 1,
       dirty_bytes := (if ty = CHR ''S''
                       then dirty_bytes g + block_size bn else dirty_bytes g)\<rparr>"

definition evict_line :: "char \<Rightarrow> ulong \<Rightarrow> line_t \<Rightarrow> line_t" where
  "evict_line ty tg l =
     l\<lparr>tag := tg, LRU_counter := 0,
       dirty_bit := (if dirty_bit l = 0 \<and> ty = CHR ''S'' then 1
                     else if dirty_bit l = 1 \<and> ty = CHR ''L'' then 0
                     else dirty_bit l)\<rparr>"

definition evict_globals :: "char \<Rightarrow> nat \<Rightarrow> line_t \<Rightarrow> globals \<Rightarrow> globals" where
  "evict_globals ty bn l g =
     g\<lparr>miss := miss g + 1, eviction := eviction g + 1,
       dirty_bytes := (if dirty_bit l = 0 \<and> ty = CHR ''S'' then dirty_bytes g + block_size bn
                       else if dirty_bit l = 1 \<and> ty = CHR ''L'' then dirty_bytes g - block_size bn
                       else dirty_bytes g),
       dirty_evictions := (if dirty_bit l = 1 \<and> (ty = CHR ''L'' \<or> ty = CHR ''S'')
                           then dirty_evictions g + block_size bn else dirty_evictions g)\<rparr>"

fun first_index :: "('a \<Rightarrow> bool) \<Rightarrow> 'a list \<Rightarrow> nat" where
  "first_index P [] = 0"
| "first_index P (x # xs) = (if P x then 0 else Suc (first_index P xs))"

text \<open>
  The three paths of \<^verbatim>\<open>cache_sim\<close>: a hit when some line is valid and has the tag;
  otherwise a miss that fills the first invalid line; otherwise a miss that evicts.
\<close>

datatype outcome = Hit | Miss_NoEvict | Miss_Evict

definition outcome_of :: "line_t list \<Rightarrow> ulong \<Rightarrow> outcome" where
  "outcome_of ls tg =
     (if \<exists>l\<in>set ls. is_hit tg l then Hit
      else if \<exists>l\<in>set ls. is_invalid l then Miss_NoEvict
      else Miss_Evict)"

definition touched_index :: "line_t list \<Rightarrow> ulong \<Rightarrow> nat" where
  "touched_index ls tg =
     (case outcome_of ls tg of
        Hit \<Rightarrow> first_index (is_hit tg) ls
      | Miss_NoEvict \<Rightarrow> first_index is_invalid ls
      | Miss_Evict \<Rightarrow> victim_index ls)"

text \<open>By how much the lines that are not touched age on each path.\<close>

fun age_of :: "outcome \<Rightarrow> ulong" where
  "age_of Hit = 1"
| "age_of Miss_NoEvict = 2"
| "age_of Miss_Evict = 3"

fun touched_line :: "outcome \<Rightarrow> char \<Rightarrow> ulong \<Rightarrow> line_t \<Rightarrow> line_t" where
  "touched_line Hit ty tg l = hit_line ty l"
| "touched_line Miss_NoEvict ty tg l = fill_line ty tg l"
| "touched_line Miss_Evict ty tg l = evict_line ty tg l"

fun globals_after :: "outcome \<Rightarrow> char \<Rightarrow> nat \<Rightarrow> line_t \<Rightarrow> globals \<Rightarrow> globals" where
  "globals_after Hit ty bn l g = hit_globals ty bn l g"
| "globals_after Miss_NoEvict ty bn l g = fill_globals ty bn g"
| "globals_after Miss_Evict ty bn l g = evict_globals ty bn l g"

text \<open>What one access makes of the lines of a set.\<close>

definition lines_after :: "char \<Rightarrow> ulong \<Rightarrow> line_t list \<Rightarrow> line_t list" where
  "lines_after ty tg ls =
     (map (aged (age_of (outcome_of ls tg))) ls)
       [touched_index ls tg :=
          touched_line (outcome_of ls tg) ty tg (ls ! touched_index ls tg)]"

section \<open>Shape and accounting of a cache\<close>

text \<open>
  The shape \<^verbatim>\<open>cache_init\<close> builds and every access keeps: \<open>2 ^ s\<close> sets of \<open>E \<ge> 1\<close> lines.
\<close>

definition cache_wf :: "cache_t \<Rightarrow> bool" where
  "cache_wf c \<longleftrightarrow>
     length (sets c) = 2 ^ cache_s c \<and> 0 < cache_E c \<and>
     (\<forall>st\<in>set (sets c). length (lines st) = cache_E c)"

text \<open>
  The flags of a line as the simulator keeps them: both are 0 or 1, and an invalid line
  is clean.
\<close>

definition line_ok :: "line_t \<Rightarrow> bool" where
  "line_ok l \<longleftrightarrow>
     (valid l = 0 \<or> valid l = 1) \<and> (dirty_bit l = 0 \<or> dirty_bit l = 1) \<and>
     (valid l = 0 \<longrightarrow> dirty_bit l = 0)"

definition cache_ok :: "cache_t \<Rightarrow> bool" where
  "cache_ok c \<longleftrightarrow> cache_wf c \<and> (\<forall>st\<in>set (sets c). \<forall>l\<in>set (lines st). line_ok l)"

text \<open>
  The dirty bytes resident in a cache, recomputed from the lines alone: \<open>2 ^ b\<close> for every
  line that is valid and dirty, summed over the lines of all sets as a natural number.
\<close>

definition line_dirty_bytes :: "nat \<Rightarrow> line_t \<Rightarrow> nat" where
  "line_dirty_bytes bn l = (if valid l = 1 \<and> dirty_bit l = 1 then 2 ^ bn else 0)"

definition set_dirty_bytes :: "nat \<Rightarrow> set_t \<Rightarrow> nat" where
  "set_dirty_bytes bn st = sum_list (map (line_dirty_bytes bn) (lines st))"

definition cache_dirty_bytes :: "cache_t \<Rightarrow> nat" where
  "cache_dirty_bytes c = sum_list (map (set_dirty_bytes (cache_b c)) (sets c))"

text \<open>A trace is well formed when every record is a load or a store.\<close>

definition well_formed :: "access_t list \<Rightarrow> bool" where
  "well_formed trace \<longleftrightarrow> (\<forall>r\<in>set trace. access_type r = CHR ''L'' \<or> access_type r = CHR ''S'')"

section \<open>Sample records and sets\<close>

text \<open>A load and a store record with the given address and declared size.\<close>

definition Load :: "ulong \<Rightarrow> int \<Rightarrow> access_t" where
  "Load a z = \<lparr>access_type = CHR ''L'', address = a, size = z\<rparr>"

definition Store :: "ulong \<Rightarrow> int \<Rightarrow> access_t" where
  "Store a z = \<lparr>access_type = CHR ''S'', address = a, size = z\<rparr>"

text \<open>A set of two valid lines, the second one dirty and the older of the two.\<close>

definition dirty_pair :: set_t where
  "dirty_pair = \<lparr>lines = [\<lparr>valid = 1, dirty_bit = 0, tag = 5, LRU_counter = 0\<rparr>,
                          \<lparr>valid = 1, dirty_bit = 1, tag = 6, LRU_counter = 4\<rparr>]\<rparr>"

text \<open>The same set with both lines clean.\<close>

definition clean_pair :: set_t where
  "clean_pair = \<lparr>lines = [\<lparr>valid = 1, dirty_bit = 0, tag = 5, LRU_counter = 0\<rparr>,
                          \<lparr>valid = 1, dirty_bit = 0, tag = 6, LRU_counter = 4\<rparr>]\<rparr>"

text \<open>Counters that go with \<open>dirty_pair\<close> for 8-byte blocks: one dirty line resident.\<close>

definition dirty_pair_globals :: globals where
  "dirty_pair_globals =
     \<lparr>hit = 1, miss = 2, eviction = 0, dirty_bytes = 8, dirty_evictions = 0\<rparr>"

text \<open>A set of three valid lines, used least recently in the order 2, 3, 1 of their tags.\<close>

definition lru_triple :: set_t where
  "lru_triple = \<lparr>lines = [\<lparr>valid = 1, dirty_bit = 0, tag = 1, LRU_counter = 0\<rparr>,
                          \<lparr>valid = 1, dirty_bit = 0, tag = 2, LRU_counter = 3\<rparr>,
                          \<lparr>valid = 1, dirty_bit = 0, tag = 3, LRU_counter = 1\<rparr>]\<rparr>"

text \<open>The same set with the counters of lines 1 and 2 tied for the maximum.\<close>

definition tied_triple :: set_t where
  "tied_triple = \<lparr>lines = [\<lparr>valid = 1, dirty_bit = 0, tag = 1, LRU_counter = 0\<rparr>,
                           \<lparr>valid = 1, dirty_bit = 0, tag = 2, LRU_counter = 3\<rparr>,
                           \<lparr>valid = 1, dirty_bit = 0, tag = 3, LRU_counter = 3\<rparr>]\<rparr>"

section \<open>The loops\<close>

lemma aged_sel [simp]:
  "valid (aged d l) = valid l" "dirty_bit (aged d l) = dirty_bit l" "tag (aged d l) = tag l"
  "LRU_counter (aged d l) = LRU_counter l + d"
  by (simp_all add: aged_def)

lemma aged_aged: "aged d (aged e l) = aged (e + d) l"
  by (simp add: aged_def add.assoc)

lemma aged_1: "l\<lparr>LRU_counter := LRU_counter l + 1\<rparr> = aged 1 l"
  by (simp add: aged_def)

lemma add_LRU_counter_length [simp]: "length (add_LRU_counter ls i e) = length ls"
  by (induction ls i e rule: add_LRU_counter.induct) (subst add_LRU_counter.simps, simp)

lemma add_LRU_counter_nth:
  "e \<le> length ls \<Longrightarrow> j < length ls \<Longrightarrow>
   add_LRU_counter ls i e ! j = (if i \<le> j \<and> j < e then aged 1 (ls ! j) else ls ! j)"
proof (induction ls i e rule: add_LRU_counter.induct)
  case (1 ls i e)
  show ?case
  proof (cases "i < e")
    case True
    with 1 show ?thesis
      by (subst add_LRU_counter.simps) (auto simp: aged_1 nth_list_update)
  next
    case False
    then show ?thesis by (subst add_LRU_counter.simps) simp
  qed
qed

lemma hit_scan_length [simp]: "length (fst (hit_scan ls tg En i)) = length ls"
  by (induction ls tg En i rule: hit_scan.induct) (subst hit_scan.simps, simp)

lemma hit_scan_None:
  "En \<le> length ls \<Longrightarrow> snd (hit_scan ls tg En i) = None \<Longrightarrow>
   (\<forall>j. i \<le> j \<and> j < En \<longrightarrow> \<not> is_hit tg (ls ! j)) \<and>
   (\<forall>j < length ls. fst (hit_scan ls tg En i) ! j =
        (if i \<le> j \<and> j < En then aged 1 (ls ! j) else ls ! j))"
proof (induction ls tg En i rule: hit_scan.induct)
  case (1 ls tg En i)
  show ?case
  proof (cases "i < En")
    case False
    then show ?thesis by (subst hit_scan.simps) auto
  next
    case True
    note lt = this
    show ?thesis
    proof (cases "is_hit tg (ls ! i)")
      case True
      with lt 1(3) show ?thesis
        by (subst (asm) hit_scan.simps) (simp add: is_hit_def)
    next
      case False
      let ?ls = "ls[i := (ls ! i)\<lparr>LRU_counter := LRU_counter (ls ! i) + 1\<rparr>]"
      from False lt have eq: "hit_scan ls tg En i = hit_scan ?ls tg En (i + 1)"
        by (subst hit_scan.simps) (auto simp: is_hit_def)
      from False have nh: "\<not> (tag (ls ! i) = tg \<and> valid (ls ! i) = 1)"
        by (simp add: is_hit_def)
      have ih: "(\<forall>j. i + 1 \<le> j \<and> j < En \<longrightarrow> \<not> is_hit tg (?ls ! j)) \<and>
         (\<forall>j < length ?ls. fst (hit_scan ?ls tg En (i + 1)) ! j =
            (if i + 1 \<le> j \<and> j < En then aged 1 (?ls ! j) else ?ls ! j))"
        using 1(1)[OF lt nh] 1(2,3) eq by simp
      have a: "\<forall>j. i \<le> j \<and> j < En \<longrightarrow> \<not> is_hit tg (ls ! j)"
      proof (intro allI impI)
        fix j assume j: "i \<le> j \<and> j < En"
        show "\<not> is_hit tg (ls ! j)"
        proof (cases "j = i")
          case True with False show ?thesis by simp
        next
          case False
          with j ih show ?thesis by (auto simp: nth_list_update)
        qed
      qed
      have b: "\<forall>j < length ls. fst (hit_scan ls tg En i) ! j =
            (if i \<le> j \<and> j < En then aged 1 (ls ! j) else ls ! j)"
        using ih lt 1(2) by (auto simp: eq nth_list_update aged_1)
      from a b show ?thesis by blast
    qed
  qed
qed

lemma hit_scan_Some:
  "En \<le> length ls \<Longrightarrow> snd (hit_scan ls tg En i) = Some k \<Longrightarrow>
   i \<le> k \<and> k < En \<and> is_hit tg (ls ! k) \<and>
   (\<forall>j. i \<le> j \<and> j < k \<longrightarrow> \<not> is_hit tg (ls ! j)) \<and>
   (\<forall>j < length ls. fst (hit_scan ls tg En i) ! j =
        (if j = k then (ls ! k)\<lparr>LRU_counter := 0\<rparr>
         else if i \<le> j \<and> j < k then aged 1 (ls ! j) else ls ! j))"
proof (induction ls tg En i rule: hit_scan.induct)
  case (1 ls tg En i)
  show ?case
  proof (cases "i < En")
    case False
    with 1(3) show ?thesis by (subst (asm) hit_scan.simps) simp
  next
    case True
    note lt = this
    show ?thesis
    proof (cases "is_hit tg (ls ! i)")
      case True
      with lt have eq: "hit_scan ls tg En i = (ls[i := (ls ! i)\<lparr>LRU_counter := 0\<rparr>], Some i)"
        by (subst hit_scan.simps) (simp add: is_hit_def)
      with 1(3) have "k = i" by simp
      with True lt 1(2) show ?thesis by (auto simp: eq nth_list_update)
    next
      case False
      let ?ls = "ls[i := (ls ! i)\<lparr>LRU_counter := LRU_counter (ls ! i) + 1\<rparr>]"
      from False lt have eq: "hit_scan ls tg En i = hit_scan ?ls tg En (i + 1)"
        by (subst hit_scan.simps) (auto simp: is_hit_def)
      from False have nh: "\<not> (tag (ls ! i) = tg \<and> valid (ls ! i) = 1)"
        by (simp add: is_hit_def)
      have len: "En \<le> length ?ls" using 1(2) by simp
      have sk: "snd (hit_scan ?ls tg En (i + 1)) = Some k" using 1(3) eq by simp
      note ih = 1(1)[OF lt nh len sk]
      from ih have k: "i < k" "k < En" by auto
      then have nk: "?ls ! k = ls ! k" by simp
      from ih nk have hk: "is_hit tg (ls ! k)" by simp
      have a: "\<forall>j. i \<le> j \<and> j < k \<longrightarrow> \<not> is_hit tg (ls ! j)"
      proof (intro allI impI)
        fix j assume j: "i \<le> j \<and> j < k"
        show "\<not> is_hit tg (ls ! j)"
        proof (cases "j = i")
          case True with False show ?thesis by simp
        next
          case False
          with j have "i + 1 \<le> j \<and> j < k" and "?ls ! j = ls ! j" by auto
          with ih show ?thesis by metis
        qed
      qed
      have b: "\<forall>j < length ls. fst (hit_scan ls tg En i) ! j =
            (if j = k then (ls ! k)\<lparr>LRU_counter := 0\<rparr>
             else if i \<le> j \<and> j < k then aged 1 (ls ! j) else ls ! j)"
      proof (intro allI impI)
        fix j assume j: "j < length ls"
        with ih have "fst (hit_scan ?ls tg En (i + 1)) ! j =
            (if j = k then (?ls ! k)\<lparr>LRU_counter := 0\<rparr>
             else if i + 1 \<le> j \<and> j < k then aged 1 (?ls ! j) else ?ls ! j)"
          by simp
        with j k nk show "fst (hit_scan ls tg En i) ! j =
            (if j = k then (ls ! k)\<lparr>LRU_counter := 0\<rparr>
             else if i \<le> j \<and> j < k then aged 1 (ls ! j) else ls ! j)"
          unfolding eq by (cases "j = i") (auto simp: aged_1)
      qed
      from a b k hk show ?thesis by auto
    qed
  qed
qed

lemma fill_scan_length [simp]: "length (fst (fill_scan ls tg En i)) = length ls"
  by (induction ls tg En i rule: fill_scan.induct) (subst fill_scan.simps, simp)

lemma fill_scan_None:
  "En \<le> length ls \<Longrightarrow> snd (fill_scan ls tg En i) = None \<Longrightarrow>
   (\<forall>j. i \<le> j \<and> j < En \<longrightarrow> \<not> is_invalid (ls ! j)) \<and>
   (\<forall>j < length ls. fst (fill_scan ls tg En i) ! j =
        (if i \<le> j \<and> j < En then aged 1 (ls ! j) else ls ! j))"
proof (induction ls tg En i rule: fill_scan.induct)
  case (1 ls tg En i)
  show ?case
  proof (cases "i < En")
    case False
    then show ?thesis by (subst fill_scan.simps) auto
  next
    case True
    note lt = this
    show ?thesis
    proof (cases "is_invalid (ls ! i)")
      case True
      with lt 1(3) show ?thesis
        by (subst (asm) fill_scan.simps) (simp add: is_invalid_def)
    next
      case False
      let ?ls = "ls[i := (ls ! i)\<lparr>LRU_counter := LRU_counter (ls ! i) + 1\<rparr>]"
      from False lt have eq: "fill_scan ls tg En i = fill_scan ?ls tg En (i + 1)"
        by (subst fill_scan.simps) (auto simp: is_invalid_def)
      from False have nh: "\<not> valid (ls ! i) = 0"
        by (simp add: is_invalid_def)
      have ih: "(\<forall>j. i + 1 \<le> j \<and> j < En \<longrightarrow> \<not> is_invalid (?ls ! j)) \<and>
         (\<forall>j < length ?ls. fst (fill_scan ?ls tg En (i + 1)) ! j =
            (if i + 1 \<le> j \<and> j < En then aged 1 (?ls ! j) else ?ls ! j))"
        using 1(1)[OF lt nh] 1(2,3) eq by simp
      have a: "\<forall>j. i \<le> j \<and> j < En \<longrightarrow> \<not> is_invalid (ls ! j)"
      proof (intro allI impI)
        fix j assume j: "i \<le> j \<and> j < En"
        show "\<not> is_invalid (ls ! j)"
        proof (cases "j = i")
          case True with False show ?thesis by simp
        next
          case False
          with j ih show ?thesis by (auto simp: nth_list_update)
        qed
      qed
      have b: "\<forall>j < length ls. fst (fill_scan ls tg En i) ! j =
            (if i \<le> j \<and> j < En then aged 1 (ls ! j) else ls ! j)"
        using ih lt 1(2) by (auto simp: eq nth_list_update aged_1)
      from a b show ?thesis by blast
    qed
  qed
qed

lemma fill_scan_Some:
  "En \<le> length ls \<Longrightarrow> snd (fill_scan ls tg En i) = Some k \<Longrightarrow>
   i \<le> k \<and> k < En \<and> is_invalid (ls ! k) \<and>
   (\<forall>j. i \<le> j \<and> j < k \<longrightarrow> \<not> is_invalid (ls ! j)) \<and>
   (\<forall>j < length ls. fst (fill_scan ls tg En i) ! j =
        (if j = k then (ls ! k)\<lparr>valid := 1, tag := tg, LRU_counter := 0\<rparr>
         else if i \<le> j \<and> j < k then aged 1 (ls ! j) else ls ! j))"
proof (induction ls tg En i rule: fill_scan.induct)
  case (1 ls tg En i)
  show ?case
  proof (cases "i < En")
    case False
    with 1(3) show ?thesis by (subst (asm) fill_scan.simps) simp
  next
    case True
    note lt = this
    show ?thesis
    proof (cases "is_invalid (ls ! i)")
      case True
      with lt have eq: "fill_scan ls tg En i = (ls[i := (ls ! i)\<lparr>valid := 1, tag := tg, LRU_counter := 0\<rparr>], Some i)"
        by (subst fill_scan.simps) (simp add: is_invalid_def)
      with 1(3) have "k = i" by simp
      with True lt 1(2) show ?thesis by (auto simp: eq nth_list_update)
    next
      case False
      let ?ls = "ls[i := (ls ! i)\<lparr>LRU_counter := LRU_counter (ls ! i) + 1\<rparr>]"
      from False lt have eq: "fill_scan ls tg En i = fill_scan ?ls tg En (i + 1)"
        by (subst fill_scan.simps) (auto simp: is_invalid_def)
      from False have nh: "\<not> valid (ls ! i) = 0"
        by (simp add: is_invalid_def)
      have len: "En \<le> length ?ls" using 1(2) by simp
      have sk: "snd (fill_scan ?ls tg En (i + 1)) = Some k" using 1(3) eq by simp
      note ih = 1(1)[OF lt nh len sk]
      from ih have k: "i < k" "k < En" by auto
      then have nk: "?ls ! k = ls ! k" by simp
      from ih nk have hk: "is_invalid (ls ! k)" by simp
      have a: "\<forall>j. i \<le> j \<and> j < k \<longrightarrow> \<not> is_invalid (ls ! j)"
      proof (intro allI impI)
        fix j assume j: "i \<le> j \<and> j < k"
        show "\<not> is_invalid (ls ! j)"
        proof (cases "j = i")
          case True with False show ?thesis by simp
        next
          case False
          with j have "i + 1 \<le> j \<and> j < k" and "?ls ! j = ls ! j" by auto
          with ih show ?thesis by metis
        qed
      qed
      have b: "\<forall>j < length ls. fst (fill_scan ls tg En i) ! j =
            (if j = k then (ls ! k)\<lparr>valid := 1, tag := tg, LRU_counter := 0\<rparr>
             else if i \<le> j \<and> j < k then aged 1 (ls ! j) else ls ! j)"
      proof (intro allI impI)
        fix j assume j: "j < length ls"
        with ih have "fst (fill_scan ?ls tg En (i + 1)) ! j =
            (if j = k then (?ls ! k)\<lparr>valid := 1, tag := tg, LRU_counter := 0\<rparr>
             else if i + 1 \<le> j \<and> j < k then aged 1 (?ls ! j) else ?ls ! j)"
          by simp
        with j k nk show "fst (fill_scan ls tg En i) ! j =
            (if j = k then (ls ! k)\<lparr>valid := 1, tag := tg, LRU_counter := 0\<rparr>
             else if i \<le> j \<and> j < k then aged 1 (ls ! j) else ls ! j)"
          unfolding eq by (cases "j = i") (auto simp: aged_1)
      qed
      from a b k hk show ?thesis by auto
    qed
  qed
qed

lemma evict_scan_less: "e < En \<Longrightarrow> evict_scan ls En m i e < En"
  by (induction ls En m i e rule: evict_scan.induct) (subst evict_scan.simps, simp)

lemma victim_index_less: "ls \<noteq> [] \<Longrightarrow> victim_index ls < length ls"
  by (simp add: victim_index_def evict_scan_less)

lemma hit_scan_hit:
  assumes "snd (hit_scan ls tg (length ls) 0) = Some k"
  shows "first_hit ls tg k"
    and "add_LRU_counter (fst (hit_scan ls tg (length ls) 0)) (Suc k) (length ls) =
         (map (aged 1) ls)[k := (ls ! k)\<lparr>LRU_counter := 0\<rparr>]"
proof -
  note h = hit_scan_Some[OF order_refl assms]
  from h show "first_hit ls tg k" by (simp add: first_hit_def)
  from h have k: "k < length ls" by simp
  show "add_LRU_counter (fst (hit_scan ls tg (length ls) 0)) (Suc k) (length ls) =
         (map (aged 1) ls)[k := (ls ! k)\<lparr>LRU_counter := 0\<rparr>]"
  proof (rule nth_equalityI)
    show "length (add_LRU_counter (fst (hit_scan ls tg (length ls) 0)) (Suc k) (length ls)) =
          length ((map (aged 1) ls)[k := (ls ! k)\<lparr>LRU_counter := 0\<rparr>])"
      by simp
  next
    fix j
    assume "j < length (add_LRU_counter (fst (hit_scan ls tg (length ls) 0)) (Suc k) (length ls))"
    then have j: "j < length ls" by simp
    with h have "fst (hit_scan ls tg (length ls) 0) ! j =
        (if j = k then (ls ! k)\<lparr>LRU_counter := 0\<rparr>
         else if j < k then aged 1 (ls ! j) else ls ! j)"
      by simp
    with j k show "add_LRU_counter (fst (hit_scan ls tg (length ls) 0)) (Suc k) (length ls) ! j =
          (map (aged 1) ls)[k := (ls ! k)\<lparr>LRU_counter := 0\<rparr>] ! j"
      by (auto simp: add_LRU_counter_nth nth_list_update)
  qed
qed

lemma hit_scan_miss:
  assumes "snd (hit_scan ls tg (length ls) 0) = None"
  shows "no_hit ls tg" and "fst (hit_scan ls tg (length ls) 0) = map (aged 1) ls"
proof -
  note h = hit_scan_None[OF order_refl assms]
  from h show "no_hit ls tg" by (simp add: no_hit_def)
  from h show "fst (hit_scan ls tg (length ls) 0) = map (aged 1) ls"
    by (intro nth_equalityI) simp_all
qed

lemma fill_scan_fill:
  assumes "snd (fill_scan ls tg (length ls) 0) = Some k"
  shows "first_invalid ls k"
    and "add_LRU_counter (fst (fill_scan ls tg (length ls) 0)) (Suc k) (length ls) =
         (map (aged 1) ls)[k := (ls ! k)\<lparr>valid := 1, tag := tg, LRU_counter := 0\<rparr>]"
proof -
  note h = fill_scan_Some[OF order_refl assms]
  from h show "first_invalid ls k" by (simp add: first_invalid_def)
  from h have k: "k < length ls" by simp
  show "add_LRU_counter (fst (fill_scan ls tg (length ls) 0)) (Suc k) (length ls) =
         (map (aged 1) ls)[k := (ls ! k)\<lparr>valid := 1, tag := tg, LRU_counter := 0\<rparr>]"
  proof (rule nth_equalityI)
    show "length (add_LRU_counter (fst (fill_scan ls tg (length ls) 0)) (Suc k) (length ls)) =
          length ((map (aged 1) ls)[k := (ls ! k)\<lparr>valid := 1, tag := tg, LRU_counter := 0\<rparr>])"
      by simp
  next
    fix j
    assume "j < length (add_LRU_counter (fst (fill_scan ls tg (length ls) 0)) (Suc k) (length ls))"
    then have j: "j < length ls" by simp
    with h have "fst (fill_scan ls tg (length ls) 0) ! j =
        (if j = k then (ls ! k)\<lparr>valid := 1, tag := tg, LRU_counter := 0\<rparr>
         else if j < k then aged 1 (ls ! j) else ls ! j)"
      by simp
    with j k show "add_LRU_counter (fst (fill_scan ls tg (length ls) 0)) (Suc k) (length ls) ! j =
          (map (aged 1) ls)[k := (ls ! k)\<lparr>valid := 1, tag := tg, LRU_counter := 0\<rparr>] ! j"
      by (auto simp: add_LRU_counter_nth nth_list_update)
  qed
qed

lemma fill_scan_full:
  assumes "snd (fill_scan ls tg (length ls) 0) = None"
  shows "no_invalid ls" and "fst (fill_scan ls tg (length ls) 0) = map (aged 1) ls"
proof -
  note h = fill_scan_None[OF order_refl assms]
  from h show "no_invalid ls" by (simp add: no_invalid_def)
  from h show "fst (fill_scan ls tg (length ls) 0) = map (aged 1) ls"
    by (intro nth_equalityI) simp_all
qed

lemma evict_age:
  assumes k: "k < length ls"
  shows "add_LRU_counter (add_LRU_counter (ls[k := l]) 0 k) (Suc k) (length ls) =
         (map (aged 1) ls)[k := l]"
proof (rule nth_equalityI)
  show "length (add_LRU_counter (add_LRU_counter (ls[k := l]) 0 k) (Suc k) (length ls)) =
        length ((map (aged 1) ls)[k := l])"
    by simp
next
  fix j
  assume "j < length (add_LRU_counter (add_LRU_counter (ls[k := l]) 0 k) (Suc k) (length ls))"
  then have j: "j < length ls" by simp
  with k show "add_LRU_counter (add_LRU_counter (ls[k := l]) 0 k) (Suc k) (length ls) ! j =
        (map (aged 1) ls)[k := l] ! j"
    by (auto simp: add_LRU_counter_nth nth_list_update)
qed

lemma map_aged_aged: "map (aged d) (map (aged e) ls) = map (aged (e + d)) ls"
  by (simp add: aged_aged comp_def)

lemma is_invalid_aged [simp]: "is_invalid (aged d l) = is_invalid l"
  by (simp add: is_invalid_def)

lemma no_invalid_map_aged [simp]: "no_invalid (map (aged d) ls) = no_invalid ls"
  by (simp add: no_invalid_def)

lemma first_invalid_map_aged [simp]: "first_invalid (map (aged d) ls) k = first_invalid ls k"
  by (auto simp: first_invalid_def)

lemma cache_sim_hit:
  assumes len: "length (lines st) = En"
      and hit: "snd (hit_scan (lines st) tg En 0) = Some k"
  shows "cache_sim ty st tg En bn g =
           (\<lparr>lines = (map (aged 1) (lines st))[k := hit_line ty (lines st ! k)]\<rparr>,
            hit_globals ty bn (lines st ! k) g)"
proof -
  from hit len have h: "snd (hit_scan (lines st) tg (length (lines st)) 0) = Some k" by simp
  from hit_scan_hit(1)[OF h] have k: "k < length (lines st)" by (simp add: first_hit_def)
  note ls2 = hit_scan_hit(2)[OF h]
  show ?thesis
    unfolding cache_sim_def len[symmetric]
    using k by (simp add: case_prod_beta h ls2 Let_def hit_line_def hit_globals_def)
qed

lemma cache_sim_fill:
  assumes len: "length (lines st) = En"
      and nohit: "snd (hit_scan (lines st) tg En 0) = None"
      and fill: "snd (fill_scan (map (aged 1) (lines st)) tg En 0) = Some k"
  shows "cache_sim ty st tg En bn g =
           (\<lparr>lines = (map (aged 2) (lines st))[k := fill_line ty tg (lines st ! k)]\<rparr>,
            fill_globals ty bn g)"
proof -
  let ?ls = "lines st" and ?ls1 = "map (aged 1) (lines st)"
  from nohit len have h: "snd (hit_scan ?ls tg (length ?ls) 0) = None" by simp
  note ls1 = hit_scan_miss(2)[OF h]
  from fill len have f: "snd (fill_scan ?ls1 tg (length ?ls1) 0) = Some k" by simp
  from fill_scan_fill(1)[OF f] have k: "k < length ?ls" by (simp add: first_invalid_def)
  from fill_scan_fill(2)[OF f]
  have ls3: "add_LRU_counter (fst (fill_scan ?ls1 tg (length ?ls) 0)) (Suc k) (length ?ls) =
         (map (aged 2) ?ls)[k := (aged 1 (?ls ! k))\<lparr>valid := 1, tag := tg, LRU_counter := 0\<rparr>]"
    using k by (simp add: aged_aged comp_def)
  from f have f': "snd (fill_scan ?ls1 tg (length ?ls) 0) = Some k" by simp
  show ?thesis
    unfolding cache_sim_def len[symmetric]
    using k
    by (simp add: case_prod_beta h ls1 f' ls3 Let_def fill_line_def fill_globals_def aged_def)
qed

lemma dirty_bit_update_same:
  "dirty_bit l = d \<Longrightarrow>
   l\<lparr>tag := t, LRU_counter := c, dirty_bit := d\<rparr> = l\<lparr>tag := t, LRU_counter := c\<rparr>"
  by (cases l) simp

lemma cache_sim_evict:
  assumes len: "length (lines st) = En" and pos: "0 < En"
      and nohit: "snd (hit_scan (lines st) tg En 0) = None"
      and full: "snd (fill_scan (map (aged 1) (lines st)) tg En 0) = None"
  shows "cache_sim ty st tg En bn g =
           (\<lparr>lines = (map (aged 3) (lines st))
                [victim_index (lines st) :=
                   evict_line ty tg (lines st ! victim_index (lines st))]\<rparr>,
            evict_globals ty bn (lines st ! victim_index (lines st)) g)"
proof -
  let ?ls = "lines st" and ?ls1 = "map (aged 1) (lines st)"
  let ?k = "victim_index ?ls"
  from nohit len have h: "snd (hit_scan ?ls tg (length ?ls) 0) = None" by simp
  note ls1 = hit_scan_miss(2)[OF h]
  from full len have f: "snd (fill_scan ?ls1 tg (length ?ls1) 0) = None" by simp
  from fill_scan_full(2)[OF f]
  have ls2: "fst (fill_scan ?ls1 tg (length ?ls) 0) = map (aged 2) ?ls"
    by (simp add: aged_aged comp_def)
  from f have f': "snd (fill_scan ?ls1 tg (length ?ls) 0) = None" by simp
  from len pos have ne: "?ls \<noteq> []" by auto
  then have k: "?k < length ?ls" by (rule victim_index_less)
  then have k2: "?k < length (map (aged 2) ?ls)" by simp
  have vi: "evict_scan (map (aged 2) ?ls) (length ?ls) (LRU_counter (map (aged 2) ?ls ! 0)) (Suc 0) 0 = ?k"
    using ne by (simp add: victim_index_def)
  have ls5: "add_LRU_counter (add_LRU_counter ((map (aged 2) ?ls)[?k := l]) 0 ?k) (Suc ?k) (length ?ls)
             = (map (aged 3) ?ls)[?k := l]" for l
    using evict_age[OF k2, of l] by (simp add: aged_aged comp_def)
  show ?thesis
    unfolding cache_sim_def len[symmetric]
    using k
    by (simp add: case_prod_beta h ls1 f' ls2 vi ls5 Let_def evict_line_def evict_globals_def
          aged_def dirty_bit_update_same)
qed

lemma first_index_first:
  "\<exists>x\<in>set ls. P x \<Longrightarrow>
   first_index P ls < length ls \<and> P (ls ! first_index P ls) \<and>
   (\<forall>j<first_index P ls. \<not> P (ls ! j))"
proof (induction ls)
  case Nil
  then show ?case by simp
next
  case (Cons x xs)
  show ?case
  proof (cases "P x")
    case True
    then show ?thesis by simp
  next
    case False
    with Cons.prems have "\<exists>x\<in>set xs. P x" by simp
    from Cons.IH[OF this] False show ?thesis
      by (auto simp: nth_Cons split: nat.splits)
  qed
qed

lemma first_index_unique:
  assumes "k < length ls" "P (ls ! k)" "\<forall>j<k. \<not> P (ls ! j)"
  shows "first_index P ls = k"
proof -
  from assms(1,2) have "\<exists>x\<in>set ls. P x" by auto
  from first_index_first[OF this]
  have f: "P (ls ! first_index P ls)" "\<forall>j<first_index P ls. \<not> P (ls ! j)" by simp_all
  show ?thesis
  proof (rule ccontr)
    assume "first_index P ls \<noteq> k"
    then consider "first_index P ls < k" | "k < first_index P ls" by linarith
    then show False
      using assms(2,3) f by cases auto
  qed
qed

lemma first_hit_outcome:
  assumes "first_hit ls tg k"
  shows "outcome_of ls tg = Hit" and "touched_index ls tg = k"
proof -
  from assms have k: "k < length ls" "is_hit tg (ls ! k)" "\<forall>j<k. \<not> is_hit tg (ls ! j)"
    by (simp_all add: first_hit_def)
  then have "\<exists>l\<in>set ls. is_hit tg l" by auto
  then show o: "outcome_of ls tg = Hit" by (simp add: outcome_of_def)
  from first_index_unique[of k ls "is_hit tg", OF k] o
  show "touched_index ls tg = k" by (simp add: touched_index_def)
qed

lemma no_hit_iff: "no_hit ls tg \<longleftrightarrow> \<not> (\<exists>l\<in>set ls. is_hit tg l)"
  unfolding no_hit_def by (metis in_set_conv_nth)

lemma no_invalid_iff: "no_invalid ls \<longleftrightarrow> \<not> (\<exists>l\<in>set ls. is_invalid l)"
  unfolding no_invalid_def by (metis in_set_conv_nth)

lemma first_invalid_outcome:
  assumes "no_hit ls tg" "first_invalid ls k"
  shows "outcome_of ls tg = Miss_NoEvict" and "touched_index ls tg = k"
proof -
  from assms(2) have k: "k < length ls" "is_invalid (ls ! k)" "\<forall>j<k. \<not> is_invalid (ls ! j)"
    by (simp_all add: first_invalid_def)
  then have "\<exists>l\<in>set ls. is_invalid l" by auto
  with assms(1) show o: "outcome_of ls tg = Miss_NoEvict"
    by (simp add: outcome_of_def no_hit_iff)
  from first_index_unique[of k ls is_invalid, OF k] o
  show "touched_index ls tg = k" by (simp add: touched_index_def)
qed

lemma no_invalid_outcome:
  assumes "no_hit ls tg" "no_invalid ls"
  shows "outcome_of ls tg = Miss_Evict" and "touched_index ls tg = victim_index ls"
proof -
  from assms show o: "outcome_of ls tg = Miss_Evict"
    by (simp add: outcome_of_def no_hit_iff no_invalid_iff)
  then show "touched_index ls tg = victim_index ls" by (simp add: touched_index_def)
qed

lemma cache_sim_eq:
  assumes len: "length (lines st) = En" and pos: "0 < En"
  shows "cache_sim ty st tg En bn g =
           (\<lparr>lines = (map (aged (age_of (outcome_of (lines st) tg))) (lines st))
                [touched_index (lines st) tg :=
                   touched_line (outcome_of (lines st) tg) ty tg
                     (lines st ! touched_index (lines st) tg)]\<rparr>,
            globals_after (outcome_of (lines st) tg) ty bn
              (lines st ! touched_index (lines st) tg) g)"
proof (cases "snd (hit_scan (lines st) tg En 0)")
  case (Some k)
  with len have h: "snd (hit_scan (lines st) tg (length (lines st)) 0) = Some k" by simp
  note o = first_hit_outcome[OF hit_scan_hit(1)[OF h]]
  show ?thesis by (simp add: cache_sim_hit[OF len Some] o)
next
  case None
  with len have h: "snd (hit_scan (lines st) tg (length (lines st)) 0) = None" by simp
  note nh = hit_scan_miss(1)[OF h]
  let ?ls1 = "map (aged 1) (lines st)"
  show ?thesis
  proof (cases "snd (fill_scan ?ls1 tg En 0)")
    case (Some k)
    with len have f: "snd (fill_scan ?ls1 tg (length ?ls1) 0) = Some k" by simp
    from fill_scan_fill(1)[OF f] have "first_invalid (lines st) k" by simp
    note o = first_invalid_outcome[OF nh this]
    show ?thesis by (simp add: cache_sim_fill[OF len None Some] o)
  next
    case None2: None
    with len have f: "snd (fill_scan ?ls1 tg (length ?ls1) 0) = None" by simp
    from fill_scan_full(1)[OF f] have "no_invalid (lines st)" by simp
    note o = no_invalid_outcome[OF nh this]
    show ?thesis by (simp add: cache_sim_evict[OF len pos None None2] o)
  qed
qed

lemma touched_index_less:
  assumes "ls \<noteq> []"
  shows "touched_index ls tg < length ls"
proof (cases "outcome_of ls tg")
  case Hit
  then have "\<exists>l\<in>set ls. is_hit tg l" by (auto simp: outcome_of_def split: if_splits)
  from first_index_first[OF this] Hit show ?thesis by (simp add: touched_index_def)
next
  case Miss_NoEvict
  then have "\<exists>l\<in>set ls. is_invalid l" by (auto simp: outcome_of_def split: if_splits)
  from first_index_first[OF this] Miss_NoEvict show ?thesis by (simp add: touched_index_def)
next
  case Miss_Evict
  with assms show ?thesis by (simp add: touched_index_def victim_index_less)
qed

section \<open>The driver's loop\<close>

lemma access_Inl: "access c g r = Inl e \<Longrightarrow> e = Tracefile_error"
  by (simp add: access_def Let_def case_prod_beta split: if_splits)

lemma access_malformed:
  "access_type r \<noteq> CHR ''L'' \<Longrightarrow> access_type r \<noteq> CHR ''S'' \<Longrightarrow> access c g r = Inl Tracefile_error"
  by (simp add: access_def Let_def)

lemma access_Inr:
  "access_type r = CHR ''L'' \<or> access_type r = CHR ''S'' \<Longrightarrow> \<exists>c' g'. access c g r = Inr (c', g')"
  by (simp add: access_def Let_def case_prod_beta)

lemma main_loop_malformed:
  assumes "access_type r \<noteq> CHR ''L''" "access_type r \<noteq> CHR ''S''"
  shows "main_loop c g (pre @ r # post) = Inl Tracefile_error"
proof (induction pre arbitrary: c g)
  case Nil
  show ?case by (simp add: access_malformed[OF assms])
next
  case (Cons x pre)
  show ?case
  proof (cases "access c g x")
    case (Inl e)
    then show ?thesis by (simp add: access_Inl[OF Inl])
  next
    case (Inr p)
    then show ?thesis by (cases p) (simp add: Cons.IH)
  qed
qed

lemma main_loop_append:
  "main_loop c g (xs @ ys) =
     (case main_loop c g xs of Inl e \<Rightarrow> Inl e | Inr (c', g') \<Rightarrow> main_loop c' g' ys)"
proof (induction xs arbitrary: c g)
  case Nil
  show ?case by simp
next
  case (Cons x xs)
  show ?case
    by (cases "access c g x") (auto simp: Cons.IH)
qed

lemma main_loop_well_formed:
  "well_formed trace \<Longrightarrow> \<exists>c' g'. main_loop c g trace = Inr (c', g')"
proof (induction trace arbitrary: c g)
  case Nil
  show ?case by simp
next
  case (Cons r rs)
  then have "access_type r = CHR ''L'' \<or> access_type r = CHR ''S''" and wf: "well_formed rs"
    by (simp_all add: well_formed_def)
  from access_Inr[OF this(1)] obtain c1 g1 where "access c g r = Inr (c1, g1)" by blast
  with Cons.IH[OF wf, of c1 g1] show ?case by simp
qed

lemma main_loop_invariant:
  assumes "main_loop c g trace = Inr (c', g')"
      and "I 0 c g"
      and "\<And>n c g r c' g'. n < length trace \<Longrightarrow> I n c g \<Longrightarrow> access c g r = Inr (c', g') \<Longrightarrow> I (Suc n) c' g'"
  shows "I (length trace) c' g'"
proof -
  have "main_loop c g tr = Inr (c', g') \<Longrightarrow> I n c g \<Longrightarrow> n + length tr \<le> length trace
        \<Longrightarrow> I (n + length tr) c' g'" for tr n c g
  proof (induction tr arbitrary: c g n)
    case Nil
    then show ?case by simp
  next
    case (Cons r rs)
    from Cons.prems(1) obtain c1 g1 where a: "access c g r = Inr (c1, g1)"
      and m: "main_loop c1 g1 rs = Inr (c', g')"
      by (auto split: sum.splits)
    from Cons.prems(3) have "n < length trace" by simp
    from assms(3)[OF this Cons.prems(2) a] have "I (Suc n) c1 g1" .
    from Cons.IH[OF m this] Cons.prems(3) show ?case by simp
  qed
  from this[where tr=trace and n=0 and c=c and g=g] assms(1,2) show ?thesis by simp
qed

lemma cache_sim_counts:
  "cache_sim ty st tg En bn g = (st', g') \<Longrightarrow>
   (hit g' = hit g + 1 \<and> miss g' = miss g \<and> eviction g' = eviction g) \<or>
   (hit g' = hit g \<and> miss g' = miss g + 1 \<and>
      (eviction g' = eviction g \<or> eviction g' = eviction g + 1))"
  by (auto simp: cache_sim_def Let_def split: prod.splits option.splits if_splits)

lemma access_counts:
  assumes "access c g r = Inr (c', g')"
  shows "(hit g' = hit g + 1 \<and> miss g' = miss g \<and> eviction g' = eviction g) \<or>
   (hit g' = hit g \<and> miss g' = miss g + 1 \<and>
      (eviction g' = eviction g \<or> eviction g' = eviction g + 1))"
proof -
  from assms obtain st' where
    "cache_sim (access_type r)
       (sets c ! unat (set_index_of (cache_s c) (cache_b c) (address r)))
       (tag_of (cache_s c) (cache_b c) (address r)) (cache_E c) (cache_b c) g = (st', g')"
    by (auto simp: access_def Let_def split: if_splits prod.splits)
  then show ?thesis by (rule cache_sim_counts)
qed

lemma unat_inc: "unat (x :: ulong) + 1 < 2 ^ 64 \<Longrightarrow> unat (x + 1) = unat x + 1"
  by (simp add: unat_word_ariths)

lemma unat_inc_le: "unat (x + 1 :: ulong) \<le> unat x + 1"
  by (simp add: unat_word_ariths)

section \<open>One access on the whole cache\<close>

lemma cache_sim_lines_after:
  assumes "length (lines st) = En" and "0 < En"
  shows "cache_sim ty st tg En bn g =
           (\<lparr>lines = lines_after ty tg (lines st)\<rparr>,
            globals_after (outcome_of (lines st) tg) ty bn
              (lines st ! touched_index (lines st) tg) g)"
  unfolding lines_after_def by (rule cache_sim_eq[OF assms])

lemma length_lines_after [simp]: "length (lines_after ty tg ls) = length ls"
  by (simp add: lines_after_def)

lemma set_index_less: "unat (set_index_of sn bn a) < 2 ^ sn"
proof -
  have "set_index_of sn bn a = take_bit sn (drop_bit bn a)"
    by (simp add: set_index_of_def take_bit_eq_mask mask_eq_exp_minus_1)
  then show ?thesis
    by (simp add: unsigned_take_bit_eq)
qed

lemma cache_wf_nth:
  "cache_wf c \<Longrightarrow> i < 2 ^ cache_s c \<Longrightarrow> length (lines (sets c ! i)) = cache_E c"
  by (simp add: cache_wf_def)

lemma access_eq:
  assumes wf: "cache_wf c"
      and ty: "access_type r = CHR ''L'' \<or> access_type r = CHR ''S''"
  shows "access c g r =
           Inr (c\<lparr>sets := (sets c)
                  [unat (set_index_of (cache_s c) (cache_b c) (address r)) :=
                     \<lparr>lines = lines_after (access_type r)
                                (tag_of (cache_s c) (cache_b c) (address r))
                                (lines (sets c ! unat (set_index_of (cache_s c) (cache_b c) (address r))))\<rparr>]\<rparr>,
                globals_after
                  (outcome_of (lines (sets c ! unat (set_index_of (cache_s c) (cache_b c) (address r))))
                     (tag_of (cache_s c) (cache_b c) (address r)))
                  (access_type r) (cache_b c)
                  (lines (sets c ! unat (set_index_of (cache_s c) (cache_b c) (address r))) !
                     touched_index (lines (sets c ! unat (set_index_of (cache_s c) (cache_b c) (address r))))
                       (tag_of (cache_s c) (cache_b c) (address r)))
                  g)"
proof -
  let ?i = "unat (set_index_of (cache_s c) (cache_b c) (address r))"
  have len: "length (lines (sets c ! ?i)) = cache_E c"
    using wf set_index_less by (rule cache_wf_nth)
  from wf have pos: "0 < cache_E c" by (simp add: cache_wf_def)
  show ?thesis
    using ty by (simp add: access_def Let_def cache_sim_lines_after[OF len pos])
qed

lemma cache_init_wf: "0 < En \<Longrightarrow> cache_wf (cache_init sn En bn)"
  by (simp add: cache_wf_def cache_init_def)

lemma access_type_ok: "access c g r = Inr (c', g') \<Longrightarrow> access_type r = CHR ''L'' \<or> access_type r = CHR ''S''"
  by (auto simp: access_def Let_def split: if_splits)

lemma access_wf:
  assumes wf: "cache_wf c" and a: "access c g r = Inr (c', g')"
  shows "cache_wf c'" and "cache_s c' = cache_s c" and "cache_E c' = cache_E c"
    and "cache_b c' = cache_b c"
proof -
  let ?i = "unat (set_index_of (cache_s c) (cache_b c) (address r))"
  have len: "length (lines (sets c ! ?i)) = cache_E c"
    using wf set_index_less by (rule cache_wf_nth)
  note e = access_eq[OF wf access_type_ok[OF a], of g]
  from a e show "cache_s c' = cache_s c" "cache_E c' = cache_E c" "cache_b c' = cache_b c"
    by auto
  from a e wf len show "cache_wf c'"
    by (auto simp: cache_wf_def dest!: set_update_subset_insert[THEN subsetD])
qed

lemma main_loop_wf:
  assumes "main_loop c g trace = Inr (c', g')" and "cache_wf c"
  shows "cache_wf c' \<and> cache_s c' = cache_s c \<and> cache_E c' = cache_E c \<and> cache_b c' = cache_b c"
  using assms
proof (induction trace arbitrary: c g)
  case Nil
  then show ?case by simp
next
  case (Cons r rs)
  from Cons.prems(1) obtain c1 g1 where a: "access c g r = Inr (c1, g1)"
    and m: "main_loop c1 g1 rs = Inr (c', g')"
    by (auto split: sum.splits)
  from access_wf[OF Cons.prems(2) a] Cons.IH[OF m] show ?case by simp
qed

lemma no_hit_outcome:
  assumes "\<forall>l\<in>set ls. \<not> (tag l = tg \<and> valid l = 1)" and "\<forall>l\<in>set ls. valid l \<noteq> 0"
  shows "outcome_of ls tg = Miss_Evict" and "touched_index ls tg = victim_index ls"
  using assms by (auto simp: outcome_of_def touched_index_def is_hit_def is_invalid_def)

lemma hit_outcome:
  assumes "k < length ls" and "tag (ls ! k) = tg \<and> valid (ls ! k) = 1"
      and "\<forall>j<k. \<not> (tag (ls ! j) = tg \<and> valid (ls ! j) = 1)"
  shows "outcome_of ls tg = Hit" and "touched_index ls tg = k"
proof -
  from assms have "first_hit ls tg k" by (simp add: first_hit_def is_hit_def)
  then show "outcome_of ls tg = Hit" and "touched_index ls tg = k"
    by (rule first_hit_outcome)+
qed

lemma block_size_eq: "bn < 31 \<Longrightarrow> block_size bn = 2 ^ bn"
  unfolding block_size_def
  by (rule bit_word_eqI) (auto simp: bit_simps min_def)

lemma block_size_31: "block_size 31 = 2 ^ 64 - 2 ^ 31"
  by code_simp

lemma dirty_victim_evicted:
  assumes len: "length (lines st) = En" and pos: "0 < En"
      and nohit: "\<forall>l\<in>set (lines st). \<not> (tag l = tg \<and> valid l = 1)"
      and full: "\<forall>l\<in>set (lines st). valid l \<noteq> 0"
      and dirty: "dirty_bit (lines st ! victim_index (lines st)) = 1"
      and ty: "ty = CHR ''L'' \<or> ty = CHR ''S''"
      and sim: "cache_sim ty st tg En bn g = (st', g')"
      and b: "bn < 31"
  shows "eviction g' = eviction g + 1"
    and "dirty_evictions g' = dirty_evictions g + 2 ^ bn"
    and "dirty_bytes g' = dirty_bytes g - 2 ^ bn + (if ty = CHR ''S'' then 2 ^ bn else 0)"
    and "tag (lines st' ! victim_index (lines st)) = tg"
    and "dirty_bit (lines st' ! victim_index (lines st)) = (if ty = CHR ''S'' then 1 else 0)"
proof -
  note o = no_hit_outcome[OF nohit full]
  from len pos have k: "victim_index (lines st) < length (lines st)"
    by (intro victim_index_less) auto
  from sim have st': "lines st' = lines_after ty tg (lines st)"
    and g': "g' = evict_globals ty bn (lines st ! victim_index (lines st)) g"
    by (auto simp: cache_sim_lines_after[OF len pos] o)
  from g' dirty ty show "eviction g' = eviction g + 1"
    and "dirty_evictions g' = dirty_evictions g + 2 ^ bn"
    and "dirty_bytes g' = dirty_bytes g - 2 ^ bn + (if ty = CHR ''S'' then 2 ^ bn else 0)"
    by (auto simp: evict_globals_def block_size_eq[OF b])
  from st' k dirty ty show "tag (lines st' ! victim_index (lines st)) = tg"
    and "dirty_bit (lines st' ! victim_index (lines st)) = (if ty = CHR ''S'' then 1 else 0)"
    by (auto simp: lines_after_def o evict_line_def)
qed

section \<open>Aging of the recency counters\<close>

lemma LRU_counter_touched_line [simp]: "LRU_counter (touched_line oc ty tg l) = 0"
  by (cases oc) (simp_all add: hit_line_def fill_line_def evict_line_def)

lemma lines_after_nth:
  "j < length ls \<Longrightarrow>
   lines_after ty tg ls ! j =
     (if j = touched_index ls tg then touched_line (outcome_of ls tg) ty tg (ls ! j)
      else aged (age_of (outcome_of ls tg)) (ls ! j))"
  by (simp add: lines_after_def nth_list_update)

lemma access_sets:
  assumes wf: "cache_wf c" and a: "access c g r = Inr (c', g')"
  shows "sets c' = (sets c)
           [unat (set_index_of (cache_s c) (cache_b c) (address r)) :=
              \<lparr>lines = lines_after (access_type r)
                         (tag_of (cache_s c) (cache_b c) (address r))
                         (lines (sets c ! unat (set_index_of (cache_s c) (cache_b c) (address r))))\<rparr>]"
    and "g' = globals_after
                  (outcome_of (lines (sets c ! unat (set_index_of (cache_s c) (cache_b c) (address r))))
                     (tag_of (cache_s c) (cache_b c) (address r)))
                  (access_type r) (cache_b c)
                  (lines (sets c ! unat (set_index_of (cache_s c) (cache_b c) (address r))) !
                     touched_index (lines (sets c ! unat (set_index_of (cache_s c) (cache_b c) (address r))))
                       (tag_of (cache_s c) (cache_b c) (address r)))
                  g"
  using a access_eq[OF wf access_type_ok[OF a], of g] by auto

lemma cache_wf_set_nonempty:
  assumes "cache_wf c" "i < 2 ^ cache_s c"
  shows "lines (sets c ! i) \<noteq> []"
proof -
  from assms have "length (lines (sets c ! i)) = cache_E c" by (rule cache_wf_nth)
  moreover from assms(1) have "0 < cache_E c" by (simp add: cache_wf_def)
  ultimately show ?thesis by auto
qed

lemma ulong_add_less_cancel:
  fixes x y d :: ulong
  assumes "unat x + unat d < 2 ^ 64" and "unat y + unat d < 2 ^ 64"
  shows "(x + d < y + d) = (x < y)"
proof -
  from assms have "unat (x + d) = unat x + unat d" "unat (y + d) = unat y + unat d"
    by (simp_all add: unat_word_ariths)
  then show ?thesis by (simp add: word_less_nat_alt)
qed

lemma unat_age_of_le: "unat (age_of oc) \<le> 3"
  by (cases oc) simp_all

section \<open>The valid bits\<close>

lemma touched_line_hit:
  assumes "outcome_of ls tg = Hit"
  shows "is_hit tg (ls ! touched_index ls tg)"
proof -
  from assms have "\<exists>l\<in>set ls. is_hit tg l" by (auto simp: outcome_of_def split: if_splits)
  from first_index_first[OF this] assms show ?thesis by (simp add: touched_index_def)
qed

lemma touched_line_invalid:
  assumes "outcome_of ls tg = Miss_NoEvict"
  shows "is_invalid (ls ! touched_index ls tg)"
proof -
  from assms have "\<exists>l\<in>set ls. is_invalid l" by (auto simp: outcome_of_def split: if_splits)
  from first_index_first[OF this] assms show ?thesis by (simp add: touched_index_def)
qed

lemma evict_all_valid:
  assumes "outcome_of ls tg = Miss_Evict" and "l \<in> set ls"
  shows "valid l \<noteq> 0"
  using assms by (auto simp: outcome_of_def is_invalid_def split: if_splits)

lemma valid_touched_line:
  "valid (touched_line oc ty tg l) = (if oc = Miss_NoEvict then 1 else valid l)"
  by (cases oc) (simp_all add: hit_line_def fill_line_def evict_line_def)

lemma cache_init_valid:
  "i < 2 ^ sn \<Longrightarrow> j < En \<Longrightarrow> valid (lines (sets (cache_init sn En bn) ! i) ! j) = 0"
  by (simp add: cache_init_def line_init_def)

lemma access_valid:
  assumes wf: "cache_wf c" and a: "access c g r = Inr (c', g')"
      and i: "i < 2 ^ cache_s c" and j: "j < cache_E c"
  shows "valid (lines (sets c' ! i) ! j) = valid (lines (sets c ! i) ! j) \<or>
         valid (lines (sets c ! i) ! j) = 0 \<and> valid (lines (sets c' ! i) ! j) = 1 \<and>
         i = unat (set_index_of (cache_s c) (cache_b c) (address r)) \<and>
         outcome_of (lines (sets c ! i)) (tag_of (cache_s c) (cache_b c) (address r))
           = Miss_NoEvict \<and>
         j = touched_index (lines (sets c ! i)) (tag_of (cache_s c) (cache_b c) (address r))"
proof -
  let ?i = "unat (set_index_of (cache_s c) (cache_b c) (address r))"
  let ?tg = "tag_of (cache_s c) (cache_b c) (address r)"
  note s = access_sets(1)[OF wf a]
  from wf i have il: "i < length (sets c)" by (simp add: cache_wf_def)
  from cache_wf_nth[OF wf i] j have jl: "j < length (lines (sets c ! i))" by simp
  show ?thesis
  proof (cases "i = ?i")
    case False
    with il show ?thesis by (simp add: s)
  next
    case True
    let ?ls = "lines (sets c ! i)"
    from True il have ls': "lines (sets c' ! i) = lines_after (access_type r) ?tg ?ls"
      by (simp add: s)
    from jl have v: "valid (lines (sets c' ! i) ! j) =
        (if j = touched_index ?ls ?tg \<and> outcome_of ?ls ?tg = Miss_NoEvict then 1
         else valid (?ls ! j))"
      by (simp add: ls' lines_after_nth valid_touched_line fill_line_def)
    show ?thesis
    proof (cases "j = touched_index ?ls ?tg \<and> outcome_of ?ls ?tg = Miss_NoEvict")
      case True
      then have "is_invalid (?ls ! j)" using touched_line_invalid[of ?ls ?tg] by simp
      then have "valid (?ls ! j) = 0" by (simp add: is_invalid_def)
      moreover from v True have "valid (lines (sets c' ! i) ! j) = 1" by simp
      ultimately show ?thesis using True \<open>i = ?i\<close> by blast
    next
      case False
      with v have "valid (lines (sets c' ! i) ! j) = valid (?ls ! j)" by simp
      then show ?thesis by blast
    qed
  qed
qed

lemma main_loop_valid:
  assumes "main_loop c g post = Inr (c', g')" and "cache_wf c"
      and "i < 2 ^ cache_s c" and "j < cache_E c"
      and "valid (lines (sets c ! i) ! j) = 1"
  shows "valid (lines (sets c' ! i) ! j) = 1"
  using assms
proof (induction post arbitrary: c g)
  case Nil
  then show ?case by simp
next
  case (Cons r rs)
  from Cons.prems(1) obtain c1 g1 where a: "access c g r = Inr (c1, g1)"
    and m: "main_loop c1 g1 rs = Inr (c', g')"
    by (auto split: sum.splits)
  note w = access_wf[OF Cons.prems(2) a]
  from access_valid[OF Cons.prems(2) a Cons.prems(3,4)] Cons.prems(5)
  have "valid (lines (sets c1 ! i) ! j) = 1" by auto
  with Cons.IH[OF m w(1)] w(2,3) Cons.prems(3,4) show ?case by simp
qed

section \<open>The dirty bytes\<close>

lemma sum_list_update_nat:
  fixes xs :: "nat list"
  shows "k < length xs \<Longrightarrow> sum_list (xs[k := x]) + xs ! k = sum_list xs + x"
proof (induction xs arbitrary: k)
  case Nil
  then show ?case by simp
next
  case (Cons y ys)
  show ?case
  proof (cases k)
    case 0
    then show ?thesis by simp
  next
    case (Suc m)
    with Cons.prems have "m < length ys" by simp
    from Cons.IH[OF this] Suc show ?thesis by simp
  qed
qed

lemma sum_list_bounded:
  fixes f :: "'a \<Rightarrow> nat"
  shows "(\<And>x. x \<in> set xs \<Longrightarrow> f x \<le> m) \<Longrightarrow> sum_list (map f xs) \<le> length xs * m"
proof (induction xs)
  case Nil
  show ?case by simp
next
  case (Cons y ys)
  from Cons.prems have "f y \<le> m" by simp
  moreover from Cons have "sum_list (map f ys) \<le> length ys * m" by simp
  ultimately show ?case by simp
qed

lemma line_dirty_bytes_aged [simp]: "line_dirty_bytes bn (aged d l) = line_dirty_bytes bn l"
  by (simp add: line_dirty_bytes_def)

lemma line_ok_aged [simp]: "line_ok (aged d l) = line_ok l"
  by (simp add: line_ok_def)

lemma lines_after_dirty:
  assumes "ls \<noteq> []"
  shows "sum_list (map (line_dirty_bytes bn) (lines_after ty tg ls)) +
           line_dirty_bytes bn (ls ! touched_index ls tg) =
         sum_list (map (line_dirty_bytes bn) ls) +
           line_dirty_bytes bn
             (touched_line (outcome_of ls tg) ty tg (ls ! touched_index ls tg))"
proof -
  let ?k = "touched_index ls tg"
  let ?new = "touched_line (outcome_of ls tg) ty tg (ls ! ?k)"
  from assms have k: "?k < length ls" by (rule touched_index_less)
  have "map (line_dirty_bytes bn) (lines_after ty tg ls) =
        (map (line_dirty_bytes bn) ls)[?k := line_dirty_bytes bn ?new]"
    by (simp add: lines_after_def map_update comp_def)
  with sum_list_update_nat[of ?k "map (line_dirty_bytes bn) ls" "line_dirty_bytes bn ?new"] k
  show ?thesis by simp
qed

lemma cache_dirty_update:
  assumes "i < length (sets c)"
  shows "cache_dirty_bytes (c\<lparr>sets := (sets c)[i := st']\<rparr>) + set_dirty_bytes (cache_b c) (sets c ! i)
         = cache_dirty_bytes c + set_dirty_bytes (cache_b c) st'"
proof -
  have "map (set_dirty_bytes (cache_b c)) ((sets c)[i := st']) =
        (map (set_dirty_bytes (cache_b c)) (sets c))[i := set_dirty_bytes (cache_b c) st']"
    by (simp add: map_update)
  with sum_list_update_nat[of i "map (set_dirty_bytes (cache_b c)) (sets c)"
         "set_dirty_bytes (cache_b c) st'"] assms
  show ?thesis by (simp add: cache_dirty_bytes_def)
qed

lemma globals_after_dirty:
  assumes ok: "line_ok l"
      and ty: "ty = CHR ''L'' \<or> ty = CHR ''S''"
      and h: "oc = Hit \<Longrightarrow> valid l = 1"
      and f: "oc = Miss_NoEvict \<Longrightarrow> valid l = 0"
      and e: "oc = Miss_Evict \<Longrightarrow> valid l \<noteq> 0"
      and b: "bn < 31"
  shows "dirty_bytes (globals_after oc ty bn l g) + of_nat (line_dirty_bytes bn l) =
         dirty_bytes g + of_nat (line_dirty_bytes bn (touched_line oc ty tg l))"
proof (cases oc)
  case Hit
  with h ok ty show ?thesis
    by (auto simp: hit_globals_def hit_line_def line_dirty_bytes_def line_ok_def
        block_size_eq[OF b])
next
  case Miss_NoEvict
  with f ok ty show ?thesis
    by (auto simp: fill_globals_def fill_line_def line_dirty_bytes_def line_ok_def
        block_size_eq[OF b])
next
  case Miss_Evict
  with e ok ty show ?thesis
    by (auto simp: evict_globals_def evict_line_def line_dirty_bytes_def line_ok_def
        block_size_eq[OF b])
qed

lemma touched_line_ok:
  assumes ok: "line_ok l"
      and h: "oc = Hit \<Longrightarrow> valid l = 1"
      and e: "oc = Miss_Evict \<Longrightarrow> valid l \<noteq> 0"
  shows "line_ok (touched_line oc ty tg l)"
  using assms
  by (cases oc) (auto simp: hit_line_def fill_line_def evict_line_def line_ok_def)

lemma touched_line_valid:
  assumes "ls \<noteq> []"
  shows "outcome_of ls tg = Hit \<Longrightarrow> valid (ls ! touched_index ls tg) = 1"
    and "outcome_of ls tg = Miss_NoEvict \<Longrightarrow> valid (ls ! touched_index ls tg) = 0"
    and "outcome_of ls tg = Miss_Evict \<Longrightarrow> valid (ls ! touched_index ls tg) \<noteq> 0"
proof -
  show "outcome_of ls tg = Hit \<Longrightarrow> valid (ls ! touched_index ls tg) = 1"
    using touched_line_hit[of ls tg] by (simp add: is_hit_def)
  show "outcome_of ls tg = Miss_NoEvict \<Longrightarrow> valid (ls ! touched_index ls tg) = 0"
    using touched_line_invalid[of ls tg] by (simp add: is_invalid_def)
  from assms have "ls ! touched_index ls tg \<in> set ls"
    by (intro nth_mem touched_index_less)
  then show "outcome_of ls tg = Miss_Evict \<Longrightarrow> valid (ls ! touched_index ls tg) \<noteq> 0"
    by (rule evict_all_valid[rotated])
qed

lemma lines_after_ok:
  assumes ne: "ls \<noteq> []" and ok: "\<forall>l\<in>set ls. line_ok l"
  shows "\<forall>l\<in>set (lines_after ty tg ls). line_ok l"
proof -
  have "line_ok (lines_after ty tg ls ! j)" if j: "j < length ls" for j
  proof -
    from j ok have lj: "line_ok (ls ! j)" by simp
    show ?thesis
    proof (cases "j = touched_index ls tg")
      case True
      with lj touched_line_valid[OF ne, of tg] j show ?thesis
        by (simp add: lines_after_nth del: touched_line.simps) (rule touched_line_ok, simp_all)
    next
      case False
      with lj j show ?thesis by (simp add: lines_after_nth)
    qed
  qed
  then show ?thesis by (auto simp: in_set_conv_nth)
qed

lemma cache_init_ok: "0 < En \<Longrightarrow> cache_ok (cache_init sn En bn)"
  by (auto simp: cache_ok_def cache_init_wf) (simp add: cache_init_def line_init_def line_ok_def)

lemma cache_init_dirty: "cache_dirty_bytes (cache_init sn En bn) = 0"
  by (simp add: cache_dirty_bytes_def cache_init_def set_dirty_bytes_def line_dirty_bytes_def
      line_init_def)

lemma access_dirty:
  assumes ok: "cache_ok c" and a: "access c g r = Inr (c', g')"
      and inv: "dirty_bytes g = of_nat (cache_dirty_bytes c)"
      and b: "cache_b c < 31"
  shows "cache_ok c'" and "dirty_bytes g' = of_nat (cache_dirty_bytes c')"
proof -
  let ?i = "unat (set_index_of (cache_s c) (cache_b c) (address r))"
  let ?tg = "tag_of (cache_s c) (cache_b c) (address r)"
  let ?ls = "lines (sets c ! ?i)"
  let ?k = "touched_index ?ls ?tg"
  let ?oc = "outcome_of ?ls ?tg"
  let ?new = "touched_line ?oc (access_type r) ?tg (?ls ! ?k)"
  let ?st' = "\<lparr>lines = lines_after (access_type r) ?tg ?ls\<rparr>"
  from ok have wf: "cache_wf c" by (simp add: cache_ok_def)
  from wf have i: "?i < length (sets c)" by (simp add: cache_wf_def set_index_less)
  from wf have ne: "?ls \<noteq> []" by (intro cache_wf_set_nonempty) (simp_all add: set_index_less)
  then have k: "?k < length ?ls" by (rule touched_index_less)
  from i have "sets c ! ?i \<in> set (sets c)" by simp
  with ok have lok: "\<forall>l\<in>set ?ls. line_ok l" by (simp add: cache_ok_def)
  with k have kok: "line_ok (?ls ! ?k)" by simp
  note s = access_sets[OF wf a]
  note ty = access_type_ok[OF a]
  from access_wf[OF wf a] have wf': "cache_wf c'" and b': "cache_b c' = cache_b c" by simp_all
  have "\<forall>l\<in>set (lines st). line_ok l" if "st \<in> set (sets c')" for st
  proof -
    from that s(1) have "st \<in> insert ?st' (set (sets c))"
      using set_update_subset_insert by fastforce
    then show ?thesis
      using lines_after_ok[OF ne lok] ok by (auto simp: cache_ok_def)
  qed
  with wf' show "cache_ok c'" by (simp add: cache_ok_def)
  have cd: "cache_dirty_bytes c' = sum_list (map (set_dirty_bytes (cache_b c)) ((sets c)[?i := ?st']))"
    by (simp add: cache_dirty_bytes_def b' s(1))
  have "sum_list (map (set_dirty_bytes (cache_b c)) ((sets c)[?i := ?st'])) +
          set_dirty_bytes (cache_b c) (sets c ! ?i) =
        cache_dirty_bytes c + set_dirty_bytes (cache_b c) ?st'"
    using cache_dirty_update[OF i, of ?st'] by (simp add: cache_dirty_bytes_def)
  with cd have 1: "cache_dirty_bytes c' + set_dirty_bytes (cache_b c) (sets c ! ?i) =
        cache_dirty_bytes c + set_dirty_bytes (cache_b c) ?st'"
    by simp
  have 2: "set_dirty_bytes (cache_b c) ?st' + line_dirty_bytes (cache_b c) (?ls ! ?k) =
        set_dirty_bytes (cache_b c) (sets c ! ?i) + line_dirty_bytes (cache_b c) ?new"
    using lines_after_dirty[OF ne, of "cache_b c" "access_type r" ?tg]
    by (simp add: set_dirty_bytes_def)
  from 1 2 have 3: "cache_dirty_bytes c' + line_dirty_bytes (cache_b c) (?ls ! ?k) =
        cache_dirty_bytes c + line_dirty_bytes (cache_b c) ?new"
    by linarith
  have 4: "dirty_bytes g' + of_nat (line_dirty_bytes (cache_b c) (?ls ! ?k)) =
        dirty_bytes g + of_nat (line_dirty_bytes (cache_b c) ?new)"
    unfolding s(2)
    by (rule globals_after_dirty[OF kok ty touched_line_valid(1)[OF ne]
          touched_line_valid(2)[OF ne] touched_line_valid(3)[OF ne] b])
  from arg_cong[OF 3, of "of_nat :: nat \<Rightarrow> ulong"]
  have 5: "(of_nat (cache_dirty_bytes c') :: ulong) +
          of_nat (line_dirty_bytes (cache_b c) (?ls ! ?k)) =
        of_nat (cache_dirty_bytes c) + of_nat (line_dirty_bytes (cache_b c) ?new)"
    by simp
  from 4 5 inv have "dirty_bytes g' + of_nat (line_dirty_bytes (cache_b c) (?ls ! ?k)) =
      of_nat (cache_dirty_bytes c') + of_nat (line_dirty_bytes (cache_b c) (?ls ! ?k))"
    by simp
  then show "dirty_bytes g' = of_nat (cache_dirty_bytes c')"
    by (simp only: add_right_cancel)
qed

lemma line_dirty_bytes_le: "line_dirty_bytes bn l \<le> 2 ^ bn"
  by (simp add: line_dirty_bytes_def)

lemma cache_dirty_bytes_le:
  assumes "cache_wf c"
  shows "cache_dirty_bytes c \<le> 2 ^ cache_s c * cache_E c * 2 ^ cache_b c"
proof -
  have "set_dirty_bytes (cache_b c) st \<le> cache_E c * 2 ^ cache_b c" if "st \<in> set (sets c)" for st
  proof -
    from that assms have "length (lines st) = cache_E c" by (simp add: cache_wf_def)
    with sum_list_bounded[of "lines st" "line_dirty_bytes (cache_b c)" "2 ^ cache_b c"]
    show ?thesis by (simp add: set_dirty_bytes_def line_dirty_bytes_le)
  qed
  from sum_list_bounded[of "sets c" "set_dirty_bytes (cache_b c)" "cache_E c * 2 ^ cache_b c", OF this]
  have "cache_dirty_bytes c \<le> length (sets c) * (cache_E c * 2 ^ cache_b c)"
    by (simp add: cache_dirty_bytes_def)
  with assms show ?thesis by (simp add: cache_wf_def mult.assoc)
qed

lemma main_loop_dirty:
  assumes "main_loop c g trace = Inr (c', g')" and "cache_ok c"
      and "dirty_bytes g = of_nat (cache_dirty_bytes c)" and "cache_b c < 31"
  shows "cache_ok c' \<and> dirty_bytes g' = of_nat (cache_dirty_bytes c')"
  using assms
proof (induction trace arbitrary: c g)
  case Nil
  then show ?case by simp
next
  case (Cons r rs)
  from Cons.prems(1) obtain c1 g1 where a: "access c g r = Inr (c1, g1)"
    and m: "main_loop c1 g1 rs = Inr (c', g')"
    by (auto split: sum.splits)
  from Cons.prems(2) have wf: "cache_wf c" by (simp add: cache_ok_def)
  from access_wf(4)[OF wf a] Cons.prems(4) have b1: "cache_b c1 < 31" by simp
  from Cons.IH[OF m access_dirty[OF Cons.prems(2) a Cons.prems(3,4)] b1] show ?case .
qed

section \<open>How large the recency counters get\<close>

lemma unat_aged_le: "unat (LRU_counter (aged (age_of oc) l)) \<le> unat (LRU_counter l) + 3"
proof -
  have "unat (LRU_counter l + age_of oc) \<le> unat (LRU_counter l) + unat (age_of oc)"
    by (simp add: unat_word_ariths)
  with unat_age_of_le[of oc] show ?thesis by simp
qed

lemma lines_after_counters:
  assumes b: "\<forall>l\<in>set ls. unat (LRU_counter l) \<le> n"
  shows "\<forall>l\<in>set (lines_after ty tg ls). unat (LRU_counter l) \<le> n + 3"
proof -
  have "unat (LRU_counter (lines_after ty tg ls ! j)) \<le> n + 3" if j: "j < length ls" for j
  proof (cases "j = touched_index ls tg")
    case True
    with j show ?thesis by (simp add: lines_after_nth del: touched_line.simps)
  next
    case False
    from j b have "unat (LRU_counter (ls ! j)) \<le> n" by simp
    with unat_aged_le[of "outcome_of ls tg" "ls ! j"] False j show ?thesis
      by (simp add: lines_after_nth)
  qed
  then show ?thesis by (auto simp: in_set_conv_nth)
qed

text \<open>
  In a run on a freshly constructed cache no counter exceeds three times the number of
  records processed, so in every run of fewer than \<open>2 ^ 64 div 3\<close> records no counter
  comes within 3 of wrapping around.
\<close>

lemma run_counters_bounded:
  assumes pos: "0 < En"
      and run: "main_loop (cache_init sn En bn) globals_init trace = Inr (c, g)"
      and i: "i < 2 ^ sn" and j: "j < En"
  shows "unat (LRU_counter (lines (sets c ! i) ! j)) \<le> 3 * length trace"
proof -
  let ?I = "\<lambda>n c (g :: globals). cache_wf c \<and>
              (\<forall>st\<in>set (sets c). \<forall>l\<in>set (lines st). unat (LRU_counter l) \<le> 3 * n)"
  have "?I (length trace) c g"
  proof (rule main_loop_invariant[OF run, where I = ?I])
    show "?I 0 (cache_init sn En bn) globals_init"
      using pos by (auto simp: cache_init_wf) (simp add: cache_init_def line_init_def)
  next
    fix n c g r c' g'
    assume I: "?I n c g" and a: "access c g r = Inr (c', g')"
    then have wf: "cache_wf c" by simp
    let ?i = "unat (set_index_of (cache_s c) (cache_b c) (address r))"
    let ?ls = "lines (sets c ! ?i)"
    let ?st' = "\<lparr>lines = lines_after (access_type r)
                   (tag_of (cache_s c) (cache_b c) (address r)) ?ls\<rparr>"
    from wf have "?i < length (sets c)" by (simp add: cache_wf_def set_index_less)
    then have "sets c ! ?i \<in> set (sets c)" by simp
    with I have "\<forall>l\<in>set ?ls. unat (LRU_counter l) \<le> 3 * n" by simp
    note new = lines_after_counters[OF this]
    have "\<forall>l\<in>set (lines st). unat (LRU_counter l) \<le> 3 * Suc n" if "st \<in> set (sets c')" for st
    proof -
      from that access_sets(1)[OF wf a] have "st \<in> insert ?st' (set (sets c))"
        using set_update_subset_insert by fastforce
      then show ?thesis
      proof
        assume "st = ?st'"
        with new[of "access_type r" "tag_of (cache_s c) (cache_b c) (address r)"]
        show ?thesis by (simp add: add.commute)
      next
        assume "st \<in> set (sets c)"
        with I have "\<forall>l\<in>set (lines st). unat (LRU_counter l) \<le> 3 * n" by simp
        then show ?thesis by auto
      qed
    qed
    with access_wf(1)[OF wf a] show "?I (Suc n) c' g'" by simp
  qed
  moreover from main_loop_wf[OF run cache_init_wf[OF pos]]
  have "cache_s c = sn" "cache_E c = En" by (simp_all add: cache_init_def)
  ultimately have "sets c ! i \<in> set (sets c)" and "length (lines (sets c ! i)) = En"
    using i by (simp_all add: cache_wf_def)
  with \<open>?I (length trace) c g\<close> j show ?thesis by simp
qed

section \<open>The victim loop\<close>

text \<open>
  What the victim loop returns: the last index from \<open>i\<close> on whose counter exceeds
  \<open>max_counter\<close>, and the index it was started with when there is none.
\<close>

lemma evict_scan_last:
  "(evict_scan ls En m i e = e \<and> (\<forall>j. i \<le> j \<and> j < En \<longrightarrow> \<not> m < LRU_counter (ls ! j))) \<or>
   (i \<le> evict_scan ls En m i e \<and> evict_scan ls En m i e < En \<and>
    m < LRU_counter (ls ! evict_scan ls En m i e) \<and>
    (\<forall>j. evict_scan ls En m i e < j \<and> j < En \<longrightarrow> \<not> m < LRU_counter (ls ! j)))"
proof (induction ls En m i e rule: evict_scan.induct)
  case (1 ls En m i e)
  show ?case
  proof (cases "i < En")
    case False
    then have eq: "evict_scan ls En m i e = e" by (subst evict_scan.simps) simp
    from False show ?thesis unfolding eq by auto
  next
    case True
    note lt = this
    show ?thesis
    proof (cases "m < LRU_counter (ls ! i)")
      case True
      have eq: "evict_scan ls En m i e = evict_scan ls En m (i + 1) i"
        using lt True by (subst evict_scan.simps) simp
      from "1.IH"(1)[OF lt True] True lt show ?thesis
        unfolding eq by (auto simp: Suc_le_eq)
    next
      case False
      define r where "r = evict_scan ls En m (i + 1) e"
      have eq: "evict_scan ls En m i e = r"
        unfolding r_def using lt False by (subst evict_scan.simps) simp
      from "1.IH"(2)[OF lt False]
      consider (none) "r = e" "\<forall>j. i + 1 \<le> j \<and> j < En \<longrightarrow> \<not> m < LRU_counter (ls ! j)"
        | (some) "i + 1 \<le> r" "r < En" "m < LRU_counter (ls ! r)"
            "\<forall>j. r < j \<and> j < En \<longrightarrow> \<not> m < LRU_counter (ls ! j)"
        unfolding r_def by blast
      then show ?thesis
      proof cases
        case none
        have "\<not> m < LRU_counter (ls ! j)" if "i \<le> j \<and> j < En" for j
        proof (cases "j = i")
          case True
          with False show ?thesis by simp
        next
          case neq: False
          with that have "i + 1 \<le> j \<and> j < En" by simp
          with none(2) show ?thesis by blast
        qed
        with none(1) show ?thesis unfolding eq by blast
      next
        case some
        from some(1) have "i \<le> r" by simp
        with some show ?thesis unfolding eq by blast
      qed
    qed
  qed
qed

text \<open>
  So the victim of a full set is the last line whose counter (after the two scans have
  aged it by 2) exceeds that of line 0, and line 0 when no counter does: not the line
  with the maximum counter.
\<close>

lemma victim_index_last:
  assumes "ls \<noteq> []"
  shows "(victim_index ls = 0 \<and>
          (\<forall>j. 1 \<le> j \<and> j < length ls \<longrightarrow>
             \<not> LRU_counter (ls ! 0) + 2 < LRU_counter (ls ! j) + 2)) \<or>
         (1 \<le> victim_index ls \<and> victim_index ls < length ls \<and>
          LRU_counter (ls ! 0) + 2 < LRU_counter (ls ! victim_index ls) + 2 \<and>
          (\<forall>j. victim_index ls < j \<and> j < length ls \<longrightarrow>
             \<not> LRU_counter (ls ! 0) + 2 < LRU_counter (ls ! j) + 2))"
proof -
  let ?m = "LRU_counter (aged 2 (ls ! 0))"
  from evict_scan_last[of "map (aged 2) ls" "length ls" ?m 1 0]
  show ?thesis
    unfolding victim_index_def by (elim disjE) (auto simp: Suc_le_eq)
qed

section \<open>Sample sets\<close>

lemma victim_dirty_pair: "victim_index (lines dirty_pair) = 1"
  by code_simp

section \<open>C1: the victim of an eviction\<close>

text \<open>
  C1 (the victim of an eviction is the line with the maximum counter, the lowest index
  among ties). The simulator does not do this. With one set of three lines, the loads of
  tags 1, 2, 3, 1 leave the counters 0, 3, 1 on the lines holding tags 1, 2, 3: the line
  with tag 2 is the least recently used and has the maximum counter. The next load, of
  tag 4, replaces the line with tag 3, because the victim loop compares every counter
  with the counter of line 0 and keeps the last index that exceeds it (lemma
  \<open>victim_index_last\<close>). A following load of tag 2 is then a hit. For the same reason a
  tie for the maximum goes to the highest index, not the lowest: in \<open>tied_triple\<close>,
  where lines 1 and 2 are tied, line 2 is replaced.
\<close>

theorem victim_is_not_the_maximum:
  "map tag (lines (sets (fst (projr (main_loop (cache_init 0 3 0) globals_init
      [Load 1 1, Load 2 1, Load 3 1, Load 1 1]))) ! 0)) = [1, 2, 3] \<and>
   map LRU_counter (lines (sets (fst (projr (main_loop (cache_init 0 3 0) globals_init
      [Load 1 1, Load 2 1, Load 3 1, Load 1 1]))) ! 0)) = [0, 3, 1] \<and>
   map valid (lines (sets (fst (projr (main_loop (cache_init 0 3 0) globals_init
      [Load 1 1, Load 2 1, Load 3 1, Load 1 1]))) ! 0)) = [1, 1, 1] \<and>
   map tag (lines (sets (fst (projr (main_loop (cache_init 0 3 0) globals_init
      [Load 1 1, Load 2 1, Load 3 1, Load 1 1, Load 4 1]))) ! 0)) = [1, 2, 4] \<and>
   csim_main 0 3 0 [Load 1 1, Load 2 1, Load 3 1, Load 1 1, Load 4 1, Load 2 1] =
     Inr \<lparr>hits = 2, misses = 4, evictions = 1,
          stats_dirty_bytes = 0, stats_dirty_evictions = 0\<rparr> \<and>
   map tag (lines (fst (cache_sim (CHR ''L'') tied_triple 4 3 0 globals_init))) = [1, 2, 4]"
  by code_simp

section \<open>C2: aging of the recency counters\<close>

text \<open>
  C2 as stated says that every access adds exactly 1 to the counters of the other lines
  of the set. A load that misses in a fresh set of two lines fills line 0 and leaves
  the counter of line 1 at 2, not at 1.
\<close>

theorem aging_by_one_counterexample:
  "LRU_counter (lines (sets (fst (projr
      (main_loop (cache_init 0 2 0) globals_init [Load 1 1]))) ! 0) ! 1) \<noteq>
   LRU_counter (lines (sets (cache_init 0 2 0) ! 0) ! 1) + 1"
  by code_simp

text \<open>
  C2, amended: for every access the driver runs (on a cache of the shape the driver
  builds), the touched line (the first line that hits; on a miss the first invalid
  line; with no invalid line the victim the simulator selects) gets counter 0, and the
  counter of every other line of the accessed set grows by the same amount, which is 1
  on a hit, 2 on a miss without eviction and 3 on a miss with eviction (modulo
  \<open>2 ^ 64\<close>); all other sets are unchanged.
\<close>

theorem access_ages_other_lines:
  assumes wf: "cache_wf c" and a: "access c g r = Inr (c', g')"
  shows "let i = unat (set_index_of (cache_s c) (cache_b c) (address r));
             tg = tag_of (cache_s c) (cache_b c) (address r);
             ls = lines (sets c ! i);
             ls' = lines (sets c' ! i);
             k = touched_index ls tg
         in i < length (sets c) \<and> length (sets c') = length (sets c) \<and>
            k < length ls \<and> length ls' = length ls \<and>
            LRU_counter (ls' ! k) = 0 \<and>
            (\<forall>j<length ls. j \<noteq> k \<longrightarrow>
               LRU_counter (ls' ! j) = LRU_counter (ls ! j) + age_of (outcome_of ls tg)) \<and>
            (\<forall>i'<length (sets c). i' \<noteq> i \<longrightarrow> sets c' ! i' = sets c ! i')"
proof -
  let ?i = "unat (set_index_of (cache_s c) (cache_b c) (address r))"
  let ?tg = "tag_of (cache_s c) (cache_b c) (address r)"
  let ?ls = "lines (sets c ! ?i)"
  from wf have i: "?i < length (sets c)" by (simp add: cache_wf_def set_index_less)
  from wf have "?ls \<noteq> []" by (intro cache_wf_set_nonempty) (simp_all add: set_index_less)
  then have k: "touched_index ?ls ?tg < length ?ls" by (rule touched_index_less)
  note s = access_sets(1)[OF wf a]
  from i have ls': "lines (sets c' ! ?i) = lines_after (access_type r) ?tg ?ls"
    by (simp add: s)
  show ?thesis
    unfolding Let_def ls' using i k by (simp add: s lines_after_nth)
qed

text \<open>
  An instance: a load that misses in the second set of a fresh cache of two sets of two lines.
\<close>

theorem access_ages_other_lines_witness:
  "cache_wf (cache_init 1 2 0) \<and>
   LRU_counter (lines (sets (fst (projr
      (access (cache_init 1 2 0) globals_init (Load 3 1)))) ! 1) ! 0) = 0 \<and>
   LRU_counter (lines (sets (fst (projr
      (access (cache_init 1 2 0) globals_init (Load 3 1)))) ! 1) ! 1) =
     LRU_counter (lines (sets (cache_init 1 2 0) ! 1) ! 1) + 2 \<and>
   sets (fst (projr (access (cache_init 1 2 0) globals_init (Load 3 1)))) ! 0 =
     sets (cache_init 1 2 0) ! 0"
proof -
  let ?c = "cache_init 1 2 0" and ?r = "Load 3 1"
  let ?c' = "fst (projr (access ?c globals_init ?r))"
  let ?g' = "snd (projr (access ?c globals_init ?r))"
  have wf: "cache_wf ?c" by (simp add: cache_init_wf)
  have a: "access ?c globals_init ?r = Inr (?c', ?g')" by code_simp
  have e: "unat (set_index_of (cache_s ?c) (cache_b ?c) (address ?r)) = 1"
    "touched_index (lines (sets ?c ! 1)) (tag_of (cache_s ?c) (cache_b ?c) (address ?r)) = 0"
    "age_of (outcome_of (lines (sets ?c ! 1)) (tag_of (cache_s ?c) (cache_b ?c) (address ?r))) = 2"
    "length (sets ?c) = 2" "length (lines (sets ?c ! 1)) = 2"
    by code_simp+
  note t = access_ages_other_lines[OF wf a, unfolded Let_def e]
  from t have "LRU_counter (lines (sets ?c' ! 1) ! 0) = 0" by simp
  moreover from t have "\<forall>j<2. j \<noteq> 0 \<longrightarrow>
      LRU_counter (lines (sets ?c' ! 1) ! j) = LRU_counter (lines (sets ?c ! 1) ! j) + 2"
    by simp
  then have "LRU_counter (lines (sets ?c' ! 1) ! 1) = LRU_counter (lines (sets ?c ! 1) ! 1) + 2"
    by simp
  moreover from t have "\<forall>i'<2. i' \<noteq> 1 \<longrightarrow> sets ?c' ! i' = sets ?c ! i'" by simp
  then have "sets ?c' ! 0 = sets ?c ! 0" by simp
  ultimately show ?thesis using wf by simp
qed

section \<open>C3: the scenario of four loads\<close>

text \<open>
  C3 as stated (two sets of one line, loads of addresses 0, 1, 2, 0 give 0 hits, 4 misses
  and 1 eviction) does not hold: the run does not end with these three numbers.
\<close>

theorem scenario_one_eviction_counterexample:
  "\<not> (hits (projr (csim_main 1 1 0 [Load 0 1, Load 1 1, Load 2 1, Load 0 1])) = 0 \<and>
      misses (projr (csim_main 1 1 0 [Load 0 1, Load 1 1, Load 2 1, Load 0 1])) = 4 \<and>
      evictions (projr (csim_main 1 1 0 [Load 0 1, Load 1 1, Load 2 1, Load 0 1])) = 1)"
  by code_simp

text \<open>
  C3, amended: with geometry \<open>s = 1\<close>, \<open>E = 1\<close>, \<open>b = 0\<close> the loads of addresses 0, 1, 2, 0,
  whatever their declared sizes, give 0 hits, 4 misses and 2 evictions. The load of
  address 2 evicts the block of address 0, and the last load of address 0 evicts the
  block of address 2 in turn.
\<close>

theorem scenario_two_evictions:
  "csim_main 1 1 0 [Load 0 z1, Load 1 z2, Load 2 z3, Load 0 z4] =
     Inr \<lparr>hits = 0, misses = 4, evictions = 2,
          stats_dirty_bytes = 0, stats_dirty_evictions = 0\<rparr>"
  by code_simp

section \<open>C4: the dirty bytes resident\<close>

text \<open>
  C4: for block bits \<open>b < 31\<close> (where the block size the simulator computes is
  \<open>2 ^ b\<close>), at every checkpoint of a run on a freshly constructed cache (after the
  records of any trace the driver has processed without error), \<open>dirty_bytes\<close> is the
  sum of \<open>2 ^ b\<close> over the lines that are valid and dirty, taken in the counter's 64-bit
  arithmetic; as a number it never exceeds the capacity \<open>2 ^ s * E * 2 ^ b\<close>; and when
  the capacity fits the 64-bit counter, the number it holds is exactly that sum. Being
  unsigned, it is never negative.
\<close>

theorem dirty_bytes_conservation:
  assumes pos: "0 < En" and b: "bn < 31"
      and run: "main_loop (cache_init sn En bn) globals_init trace = Inr (c, g)"
  shows "dirty_bytes g = of_nat (cache_dirty_bytes c) \<and>
         0 \<le> unat (dirty_bytes g) \<and>
         unat (dirty_bytes g) \<le> 2 ^ sn * En * 2 ^ bn \<and>
         (2 ^ sn * En * 2 ^ bn < 2 ^ 64 \<longrightarrow> unat (dirty_bytes g) = cache_dirty_bytes c)"
proof -
  have "dirty_bytes globals_init = of_nat (cache_dirty_bytes (cache_init sn En bn))"
    by (simp add: cache_init_dirty globals_init_def)
  moreover from b have "cache_b (cache_init sn En bn) < 31" by (simp add: cache_init_def)
  ultimately have ok: "cache_ok c" and eq: "dirty_bytes g = of_nat (cache_dirty_bytes c)"
    using main_loop_dirty[OF run cache_init_ok[OF pos]] by simp_all
  from main_loop_wf[OF run cache_init_wf[OF pos]]
  have wf: "cache_wf c" and geo: "cache_s c = sn" "cache_E c = En" "cache_b c = bn"
    by (simp_all add: cache_init_def)
  from cache_dirty_bytes_le[OF wf] geo
  have le: "cache_dirty_bytes c \<le> 2 ^ sn * En * 2 ^ bn" by simp
  have "unat (dirty_bytes g) \<le> cache_dirty_bytes c"
    by (simp add: eq unat_of_nat)
  with le have b: "unat (dirty_bytes g) \<le> 2 ^ sn * En * 2 ^ bn" by simp
  have "unat (dirty_bytes g) = cache_dirty_bytes c" if "2 ^ sn * En * 2 ^ bn < (2::nat) ^ 64"
  proof -
    from that le have "cache_dirty_bytes c < 2 ^ 64" by simp
    then show ?thesis by (simp add: eq unat_of_nat)
  qed
  with eq b show ?thesis by simp
qed

text \<open>
  An instance: two stores to different sets of a cache of two sets of one line with 4-byte blocks.
\<close>

theorem dirty_bytes_conservation_witness:
  "(0::nat) < 1 \<and> (2::nat) < 31 \<and>
   dirty_bytes (snd (projr (main_loop (cache_init 1 1 2) globals_init
      [Store 0 1, Load 0 1, Store 4 1]))) =
     of_nat (cache_dirty_bytes (fst (projr (main_loop (cache_init 1 1 2) globals_init
      [Store 0 1, Load 0 1, Store 4 1])))) \<and>
   unat (dirty_bytes (snd (projr (main_loop (cache_init 1 1 2) globals_init
      [Store 0 1, Load 0 1, Store 4 1])))) \<le> 2 ^ 1 * 1 * 2 ^ 2 \<and>
   (2::nat) ^ 1 * 1 * 2 ^ 2 < 2 ^ 64 \<and>
   unat (dirty_bytes (snd (projr (main_loop (cache_init 1 1 2) globals_init
      [Store 0 1, Load 0 1, Store 4 1])))) =
     cache_dirty_bytes (fst (projr (main_loop (cache_init 1 1 2) globals_init
      [Store 0 1, Load 0 1, Store 4 1]))) \<and>
   cache_dirty_bytes (fst (projr (main_loop (cache_init 1 1 2) globals_init
      [Store 0 1, Load 0 1, Store 4 1]))) = 8"
proof -
  let ?tr = "[Store 0 1, Load 0 1, Store 4 1]"
  let ?c = "fst (projr (main_loop (cache_init 1 1 2) globals_init ?tr))"
  let ?g = "snd (projr (main_loop (cache_init 1 1 2) globals_init ?tr))"
  have pos: "(0::nat) < 1" and b: "(2::nat) < 31" by simp_all
  have run: "main_loop (cache_init 1 1 2) globals_init ?tr = Inr (?c, ?g)" by code_simp
  have cap: "(2::nat) ^ 1 * 1 * 2 ^ 2 < 2 ^ 64" by simp
  have v: "cache_dirty_bytes ?c = 8" by code_simp
  from dirty_bytes_conservation[OF pos b run] cap v show ?thesis by simp
qed

section \<open>C5: stores and write-back\<close>

text \<open>
  C5: for block bits \<open>b < 31\<close> (where the block size the simulator computes is
  \<open>2 ^ b\<close>). A store that hits a clean line (line \<open>k\<close> of a set in state \<open>sa\<close>) marks it
  dirty and adds exactly \<open>2 ^ b\<close> to \<open>dirty_bytes\<close>. A later store that hits the same
  line while it is dirty (state \<open>sb\<close>) changes no dirty bit of the set and leaves
  \<open>dirty_bytes\<close>, \<open>dirty_evictions\<close>, \<open>miss\<close> and \<open>eviction\<close> as they are; being a hit,
  it is counted in \<open>hit\<close> like every hit. A later load that evicts the line while it is
  still dirty (state \<open>sc\<close>) adds \<open>2 ^ b\<close> to \<open>dirty_evictions\<close>, takes \<open>2 ^ b\<close> from
  \<open>dirty_bytes\<close> and leaves the line clean.
\<close>

theorem store_write_back:
  assumes pos: "0 < En" and k: "k < En"
      and lena: "length (lines sa) = En"
      and hita: "tag (lines sa ! k) = ta \<and> valid (lines sa ! k) = 1"
      and firsta: "\<forall>j<k. \<not> (tag (lines sa ! j) = ta \<and> valid (lines sa ! j) = 1)"
      and cleana: "dirty_bit (lines sa ! k) = 0"
      and sima: "cache_sim (CHR ''S'') sa ta En bn ga = (sa', ga')"
      and lenb: "length (lines sb) = En"
      and hitb: "tag (lines sb ! k) = tb \<and> valid (lines sb ! k) = 1"
      and firstb: "\<forall>j<k. \<not> (tag (lines sb ! j) = tb \<and> valid (lines sb ! j) = 1)"
      and dirtyb: "dirty_bit (lines sb ! k) = 1"
      and simb: "cache_sim (CHR ''S'') sb tb En bn gb = (sb', gb')"
      and lenc: "length (lines sc) = En"
      and nohitc: "\<forall>l\<in>set (lines sc). \<not> (tag l = tc \<and> valid l = 1)"
      and fullc: "\<forall>l\<in>set (lines sc). valid l \<noteq> 0"
      and victimc: "victim_index (lines sc) = k"
      and dirtyc: "dirty_bit (lines sc ! k) = 1"
      and simc: "cache_sim (CHR ''L'') sc tc En bn gc = (sc', gc')"
      and b: "bn < 31"
  shows "dirty_bit (lines sa' ! k) = 1 \<and> dirty_bytes ga' = dirty_bytes ga + 2 ^ bn \<and>
         map dirty_bit (lines sb') = map dirty_bit (lines sb) \<and>
         hit gb' = hit gb + 1 \<and> miss gb' = miss gb \<and> eviction gb' = eviction gb \<and>
         dirty_bytes gb' = dirty_bytes gb \<and> dirty_evictions gb' = dirty_evictions gb \<and>
         dirty_evictions gc' = dirty_evictions gc + 2 ^ bn \<and>
         dirty_bytes gc' = dirty_bytes gc - 2 ^ bn \<and>
         dirty_bit (lines sc' ! k) = 0"
proof -
  from k lena have ka: "k < length (lines sa)" by simp
  note oa = hit_outcome[OF ka hita firsta]
  from sima have "lines sa' = lines_after (CHR ''S'') ta (lines sa)"
    and "ga' = hit_globals (CHR ''S'') bn (lines sa ! k) ga"
    by (auto simp: cache_sim_lines_after[OF lena pos] oa)
  with ka cleana have a: "dirty_bit (lines sa' ! k) = 1"
    "dirty_bytes ga' = dirty_bytes ga + 2 ^ bn"
    by (simp_all add: lines_after_def oa hit_line_def hit_globals_def block_size_eq[OF b])
  from k lenb have kb: "k < length (lines sb)" by simp
  note ob = hit_outcome[OF kb hitb firstb]
  from simb have sb': "lines sb' = lines_after (CHR ''S'') tb (lines sb)"
    and gb': "gb' = hit_globals (CHR ''S'') bn (lines sb ! k) gb"
    by (auto simp: cache_sim_lines_after[OF lenb pos] ob)
  have "map dirty_bit (lines sb') = map dirty_bit (lines sb)"
    unfolding sb' using kb dirtyb
    by (intro nth_equalityI) (auto simp: lines_after_def ob hit_line_def nth_list_update)
  moreover from gb' dirtyb have "hit gb' = hit gb + 1" "miss gb' = miss gb"
    "eviction gb' = eviction gb" "dirty_bytes gb' = dirty_bytes gb"
    "dirty_evictions gb' = dirty_evictions gb"
    by (simp_all add: hit_globals_def)
  moreover from dirtyc victimc
  have "dirty_bit (lines sc ! victim_index (lines sc)) = 1" by simp
  from dirty_victim_evicted[OF lenc pos nohitc fullc this _ simc b] victimc
  have "dirty_evictions gc' = dirty_evictions gc + 2 ^ bn"
    "dirty_bytes gc' = dirty_bytes gc - 2 ^ bn" "dirty_bit (lines sc' ! k) = 0"
    by simp_all
  ultimately show ?thesis using a by simp
qed

text \<open>
  An instance on sets of two lines, where the line with tag 6 is line 1.
\<close>

theorem store_write_back_witness:
  "(0::nat) < 2 \<and> (1::nat) < 2 \<and> (3::nat) < 31 \<and>
   length (lines clean_pair) = 2 \<and>
   (tag (lines clean_pair ! 1) = 6 \<and> valid (lines clean_pair ! 1) = 1) \<and>
   \<not> (tag (lines clean_pair ! 0) = 6 \<and> valid (lines clean_pair ! 0) = 1) \<and>
   dirty_bit (lines clean_pair ! 1) = 0 \<and>
   length (lines dirty_pair) = 2 \<and>
   (tag (lines dirty_pair ! 1) = 6 \<and> valid (lines dirty_pair ! 1) = 1) \<and>
   \<not> (tag (lines dirty_pair ! 0) = 6 \<and> valid (lines dirty_pair ! 0) = 1) \<and>
   dirty_bit (lines dirty_pair ! 1) = 1 \<and>
   list_all (\<lambda>l. \<not> (tag l = 7 \<and> valid l = 1)) (lines dirty_pair) \<and>
   list_all (\<lambda>l. valid l \<noteq> 0) (lines dirty_pair) \<and>
   victim_index (lines dirty_pair) = 1 \<and>
   dirty_bit (lines (fst (cache_sim (CHR ''S'') clean_pair 6 2 3 globals_init)) ! 1) = 1 \<and>
   dirty_bytes (snd (cache_sim (CHR ''S'') clean_pair 6 2 3 globals_init)) = 0 + 2 ^ 3 \<and>
   map dirty_bit (lines (fst (cache_sim (CHR ''S'') dirty_pair 6 2 3 dirty_pair_globals))) =
     map dirty_bit (lines dirty_pair) \<and>
   hit (snd (cache_sim (CHR ''S'') dirty_pair 6 2 3 dirty_pair_globals)) = 1 + 1 \<and>
   miss (snd (cache_sim (CHR ''S'') dirty_pair 6 2 3 dirty_pair_globals)) = 2 \<and>
   eviction (snd (cache_sim (CHR ''S'') dirty_pair 6 2 3 dirty_pair_globals)) = 0 \<and>
   dirty_bytes (snd (cache_sim (CHR ''S'') dirty_pair 6 2 3 dirty_pair_globals)) = 8 \<and>
   dirty_evictions (snd (cache_sim (CHR ''S'') dirty_pair 6 2 3 dirty_pair_globals)) = 0 \<and>
   dirty_evictions (snd (cache_sim (CHR ''L'') dirty_pair 7 2 3 dirty_pair_globals)) = 0 + 2 ^ 3 \<and>
   dirty_bytes (snd (cache_sim (CHR ''L'') dirty_pair 7 2 3 dirty_pair_globals)) = 8 - 2 ^ 3 \<and>
   dirty_bit (lines (fst (cache_sim (CHR ''L'') dirty_pair 7 2 3 dirty_pair_globals)) ! 1) = 0"
  using store_write_back
    [where En = 2 and k = 1 and bn = 3
       and sa = clean_pair and ta = 6 and ga = globals_init
       and sa' = "fst (cache_sim (CHR ''S'') clean_pair 6 2 3 globals_init)"
       and ga' = "snd (cache_sim (CHR ''S'') clean_pair 6 2 3 globals_init)"
       and sb = dirty_pair and tb = 6 and gb = dirty_pair_globals
       and sb' = "fst (cache_sim (CHR ''S'') dirty_pair 6 2 3 dirty_pair_globals)"
       and gb' = "snd (cache_sim (CHR ''S'') dirty_pair 6 2 3 dirty_pair_globals)"
       and sc = dirty_pair and tc = 7 and gc = dirty_pair_globals
       and sc' = "fst (cache_sim (CHR ''L'') dirty_pair 7 2 3 dirty_pair_globals)"
       and gc' = "snd (cache_sim (CHR ''L'') dirty_pair 7 2 3 dirty_pair_globals)"]
  by (simp add: victim_dirty_pair) (simp add: clean_pair_def dirty_pair_def globals_init_def dirty_pair_globals_def)

section \<open>C6: eviction of a dirty line\<close>

text \<open>
  C6: for block bits \<open>b < 31\<close> (where the block size the simulator computes is
  \<open>2 ^ b\<close>), when an access (a load or a store) misses in a set with no invalid line and
  the victim the simulator selects is dirty, \<open>dirty_evictions\<close> grows by exactly \<open>2 ^ b\<close> and
  \<open>dirty_bytes\<close> loses the victim's \<open>2 ^ b\<close> bytes, net of the \<open>2 ^ b\<close> bytes a store adds
  for the block it installs; the line ends dirty for a store and clean for a load.
\<close>

theorem dirty_victim_written_back:
  assumes len: "length (lines st) = En" and pos: "0 < En"
      and nohit: "\<forall>l\<in>set (lines st). \<not> (tag l = tg \<and> valid l = 1)"
      and full: "\<forall>l\<in>set (lines st). valid l \<noteq> 0"
      and dirty: "dirty_bit (lines st ! victim_index (lines st)) = 1"
      and ty: "ty = CHR ''L'' \<or> ty = CHR ''S''"
      and sim: "cache_sim ty st tg En bn g = (st', g')"
      and b: "bn < 31"
  shows "eviction g' = eviction g + 1 \<and>
         dirty_evictions g' = dirty_evictions g + 2 ^ bn \<and>
         dirty_bytes g' = dirty_bytes g - 2 ^ bn + (if ty = CHR ''S'' then 2 ^ bn else 0) \<and>
         tag (lines st' ! victim_index (lines st)) = tg \<and>
         dirty_bit (lines st' ! victim_index (lines st)) = (if ty = CHR ''S'' then 1 else 0)"
  using dirty_victim_evicted[OF assms] by simp

text \<open>
  An instance: a store of tag 7 to a full set of two lines whose victim is dirty.
\<close>

theorem dirty_victim_written_back_witness:
  "length (lines dirty_pair) = 2 \<and> (0::nat) < 2 \<and>
   list_all (\<lambda>l. \<not> (tag l = 7 \<and> valid l = 1)) (lines dirty_pair) \<and>
   list_all (\<lambda>l. valid l \<noteq> 0) (lines dirty_pair) \<and>
   dirty_bit (lines dirty_pair ! victim_index (lines dirty_pair)) = 1 \<and>
   (CHR ''S'' = CHR ''L'' \<or> CHR ''S'' = CHR ''S'') \<and> (3::nat) < 31 \<and>
   eviction (snd (cache_sim (CHR ''S'') dirty_pair 7 2 3 dirty_pair_globals)) = 0 + 1 \<and>
   dirty_evictions (snd (cache_sim (CHR ''S'') dirty_pair 7 2 3 dirty_pair_globals)) = 0 + 2 ^ 3 \<and>
   dirty_bytes (snd (cache_sim (CHR ''S'') dirty_pair 7 2 3 dirty_pair_globals)) = 8 - 2 ^ 3 + 2 ^ 3 \<and>
   tag (lines (fst (cache_sim (CHR ''S'') dirty_pair 7 2 3 dirty_pair_globals)) ! 1) = 7 \<and>
   dirty_bit (lines (fst (cache_sim (CHR ''S'') dirty_pair 7 2 3 dirty_pair_globals)) ! 1) = 1"
  using dirty_victim_written_back
    [of dirty_pair 2 7 "CHR ''S''" 3 dirty_pair_globals
        "fst (cache_sim (CHR ''S'') dirty_pair 7 2 3 dirty_pair_globals)"
        "snd (cache_sim (CHR ''S'') dirty_pair 7 2 3 dirty_pair_globals)"]
  by (simp add: victim_dirty_pair) (simp add: dirty_pair_def dirty_pair_globals_def)

section \<open>C7: hits, misses and evictions\<close>

text \<open>
  C7: after any prefix of a well-formed trace (the first \<open>n\<close> records, run on a freshly
  constructed cache with all counters 0), the prefix has been processed without error,
  \<open>hit + miss\<close> is the number \<open>n\<close> of records processed, and \<open>eviction \<le> miss\<close>. The
  counters are 64-bit, so the trace is taken to be shorter than \<open>2 ^ 64\<close> records.
\<close>

theorem hit_miss_partition:
  assumes wf: "well_formed trace" and n: "n \<le> length trace" and len: "length trace < 2 ^ 64"
  shows "\<exists>c g. main_loop (cache_init sn En bn) globals_init (take n trace) = Inr (c, g) \<and>
           unat (hit g) + unat (miss g) = n \<and> unat (eviction g) \<le> unat (miss g)"
proof -
  let ?tr = "take n trace"
  from wf have "well_formed ?tr"
    by (auto simp: well_formed_def dest: in_set_takeD)
  from main_loop_well_formed[OF this] obtain c g
    where run: "main_loop (cache_init sn En bn) globals_init ?tr = Inr (c, g)" by blast
  let ?I = "\<lambda>m (c :: cache_t) g. unat (hit g) + unat (miss g) = m \<and> unat (eviction g) \<le> unat (miss g)"
  have "?I (length ?tr) c g"
  proof (rule main_loop_invariant[OF run, where I = ?I])
    show "?I 0 (cache_init sn En bn) globals_init" by (simp add: globals_init_def)
  next
    fix m c g r c' g'
    assume m: "m < length ?tr" and I: "?I m c g" and a: "access c g r = Inr (c', g')"
    from m len have m64: "m + 1 < 2 ^ 64" by simp
    from access_counts[OF a]
    consider (H) "hit g' = hit g + 1" "miss g' = miss g" "eviction g' = eviction g"
      | (M) "hit g' = hit g" "miss g' = miss g + 1" "eviction g' = eviction g"
      | (E) "hit g' = hit g" "miss g' = miss g + 1" "eviction g' = eviction g + 1"
      by blast
    then show "?I (Suc m) c' g'"
    proof cases
      case H
      from I m64 have "unat (hit g) + 1 < 2 ^ 64" by simp
      from unat_inc[OF this] H I show ?thesis by simp
    next
      case M
      from I m64 have "unat (miss g) + 1 < 2 ^ 64" by simp
      from unat_inc[OF this] M I show ?thesis by simp
    next
      case E
      from I m64 have "unat (miss g) + 1 < 2 ^ 64" by simp
      from unat_inc[OF this] E I unat_inc_le[of "eviction g"] show ?thesis by simp
    qed
  qed
  with run n show ?thesis by auto
qed

text \<open>
  An instance: the first two of three records.
\<close>

theorem hit_miss_partition_witness:
  "well_formed [Load 0 1, Store 0 1, Load 2 1] \<and>
   2 \<le> length [Load 0 1, Store 0 1, Load 2 1] \<and>
   length [Load 0 1, Store 0 1, Load 2 1] < 2 ^ 64 \<and>
   (\<exists>c g. main_loop (cache_init 1 1 0) globals_init (take 2 [Load 0 1, Store 0 1, Load 2 1])
             = Inr (c, g) \<and>
          unat (hit g) + unat (miss g) = 2 \<and> unat (eviction g) \<le> unat (miss g))"
  using hit_miss_partition [of "[Load 0 1, Store 0 1, Load 2 1]" 2 1 1 0]
  by (simp add: well_formed_def Load_def Store_def)

section \<open>C8: malformed records\<close>

text \<open>
  C8: when the trace holds a record whose kind is neither \<open>L\<close> nor \<open>S\<close>, the driver
  (started with a geometry it accepts) returns the trace-file error and hands no
  statistics to the summary, whatever records come before the malformed one and
  whatever records follow it.
\<close>

theorem malformed_kind_halts:
  assumes "access_type r \<noteq> CHR ''L''" and "access_type r \<noteq> CHR ''S''"
      and "0 \<le> s_arg" and "0 < E_arg" and "0 \<le> b_arg"
  shows "csim_main s_arg E_arg b_arg (pre @ r # post) = Inl Tracefile_error"
  using assms(3-5) by (simp add: csim_main_def main_loop_malformed[OF assms(1,2)])

text \<open>
  An instance: a record of kind \<open>M\<close> between well-formed ones.
\<close>

theorem malformed_kind_halts_witness:
  "access_type \<lparr>access_type = CHR ''M'', address = 0, size = 1\<rparr> \<noteq> CHR ''L'' \<and>
   access_type \<lparr>access_type = CHR ''M'', address = 0, size = 1\<rparr> \<noteq> CHR ''S'' \<and>
   (0::int) \<le> 1 \<and> (0::int) < 1 \<and> (0::int) \<le> 0 \<and>
   csim_main 1 1 0
     ([Store 0 1, Load 0 1] @ \<lparr>access_type = CHR ''M'', address = 0, size = 1\<rparr> # [Load 1 1])
     = Inl Tracefile_error"
  using malformed_kind_halts
    [of "\<lparr>access_type = CHR ''M'', address = 0, size = 1\<rparr>" 1 1 0 "[Store 0 1, Load 0 1]" "[Load 1 1]"]
  by simp

section \<open>C9: the order of the untouched lines\<close>

text \<open>
  C9: in one call of \<^verbatim>\<open>cache_sim\<close> every line of the set other than the touched line has
  its counter increased by one and the same amount (1 on a hit, 2 on a miss without
  eviction, 3 on a miss with eviction), and for any two such lines the order of the
  counters after the call is the order before it. The counters are 64-bit and wrap
  around, so the order is stated for lines whose counter is more than 3 below \<open>2 ^ 64\<close>.
\<close>

theorem untouched_lines_keep_their_order:
  assumes len: "length (lines st) = En" and pos: "0 < En"
      and sim: "cache_sim ty st tg En bn g = (st', g')"
  shows "(\<forall>j<En. j \<noteq> touched_index (lines st) tg \<longrightarrow>
            LRU_counter (lines st' ! j) =
              LRU_counter (lines st ! j) + age_of (outcome_of (lines st) tg)) \<and>
         (\<forall>i<En. \<forall>j<En.
            i \<noteq> touched_index (lines st) tg \<and> j \<noteq> touched_index (lines st) tg \<and>
            unat (LRU_counter (lines st ! i)) + 3 < 2 ^ 64 \<and>
            unat (LRU_counter (lines st ! j)) + 3 < 2 ^ 64 \<longrightarrow>
            (LRU_counter (lines st' ! i) < LRU_counter (lines st' ! j)) =
            (LRU_counter (lines st ! i) < LRU_counter (lines st ! j)))"
proof -
  let ?k = "touched_index (lines st) tg" and ?d = "age_of (outcome_of (lines st) tg)"
  from sim have st': "lines st' = lines_after ty tg (lines st)"
    by (auto simp: cache_sim_lines_after[OF len pos])
  have same: "LRU_counter (lines st' ! j) = LRU_counter (lines st ! j) + ?d"
    if "j < En" "j \<noteq> ?k" for j
    using that len by (simp add: st' lines_after_nth)
  have order: "(LRU_counter (lines st' ! i) < LRU_counter (lines st' ! j)) =
               (LRU_counter (lines st ! i) < LRU_counter (lines st ! j))"
    if "i < En" "j < En" "i \<noteq> ?k" "j \<noteq> ?k"
       "unat (LRU_counter (lines st ! i)) + 3 < 2 ^ 64"
       "unat (LRU_counter (lines st ! j)) + 3 < 2 ^ 64" for i j
  proof -
    from that(5,6) unat_age_of_le[of "outcome_of (lines st) tg"]
    have "unat (LRU_counter (lines st ! i)) + unat ?d < 2 ^ 64"
      "unat (LRU_counter (lines st ! j)) + unat ?d < 2 ^ 64"
      by simp_all
    from ulong_add_less_cancel[OF this] same[OF that(1,3)] same[OF that(2,4)]
    show ?thesis by simp
  qed
  from same order show ?thesis by blast
qed

text \<open>
  An instance: a hit on line 0 of a set of three lines.
\<close>

theorem untouched_lines_keep_their_order_witness:
  "length (lines lru_triple) = 3 \<and> (0::nat) < 3 \<and>
   LRU_counter (lines (fst (cache_sim (CHR ''L'') lru_triple 1 3 0 globals_init)) ! 1) =
     LRU_counter (lines lru_triple ! 1) + 1 \<and>
   LRU_counter (lines (fst (cache_sim (CHR ''L'') lru_triple 1 3 0 globals_init)) ! 2) =
     LRU_counter (lines lru_triple ! 2) + 1 \<and>
   unat (LRU_counter (lines lru_triple ! 1)) + 3 < 2 ^ 64 \<and>
   unat (LRU_counter (lines lru_triple ! 2)) + 3 < 2 ^ 64 \<and>
   (LRU_counter (lines (fst (cache_sim (CHR ''L'') lru_triple 1 3 0 globals_init)) ! 2) <
    LRU_counter (lines (fst (cache_sim (CHR ''L'') lru_triple 1 3 0 globals_init)) ! 1)) =
   (LRU_counter (lines lru_triple ! 2) < LRU_counter (lines lru_triple ! 1))"
proof -
  let ?st' = "fst (cache_sim (CHR ''L'') lru_triple 1 3 0 globals_init)"
  let ?g' = "snd (cache_sim (CHR ''L'') lru_triple 1 3 0 globals_init)"
  have len: "length (lines lru_triple) = 3" by (simp add: lru_triple_def)
  have sim: "cache_sim (CHR ''L'') lru_triple 1 3 0 globals_init = (?st', ?g')" by simp
  have e: "touched_index (lines lru_triple) 1 = 0"
    "age_of (outcome_of (lines lru_triple) 1) = 1"
    by code_simp+
  have b: "unat (LRU_counter (lines lru_triple ! 1)) + 3 < 2 ^ 64"
    "unat (LRU_counter (lines lru_triple ! 2)) + 3 < 2 ^ 64"
    by (simp_all add: lru_triple_def)
  have pos: "(0::nat) < 3" by simp
  note t = untouched_lines_keep_their_order[OF len pos sim, unfolded e]
  from t[THEN conjunct1, rule_format, of 1]
  have s1: "LRU_counter (lines ?st' ! 1) = LRU_counter (lines lru_triple ! 1) + 1" by simp
  from t[THEN conjunct1, rule_format, of 2]
  have s2: "LRU_counter (lines ?st' ! 2) = LRU_counter (lines lru_triple ! 2) + 1" by simp
  from t[THEN conjunct2, rule_format, of 2 1] b
  have "(LRU_counter (lines ?st' ! 2) < LRU_counter (lines ?st' ! 1)) =
       (LRU_counter (lines lru_triple ! 2) < LRU_counter (lines lru_triple ! 1))"
    by simp
  with s1 s2 b len show ?thesis by simp
qed

section \<open>C10: the valid bits\<close>

text \<open>
  C10: in a run on a freshly constructed cache every line starts invalid; one access
  either leaves the valid bit of a line as it is or takes it from 0 to 1, the latter
  only for the line that a miss without eviction fills; and a line that is valid at some
  point of the run is valid at every later point.
\<close>

theorem valid_bit_monotone:
  assumes pos: "0 < En"
      and run: "main_loop (cache_init sn En bn) globals_init pre = Inr (c, g)"
      and step: "access c g r = Inr (c1, g1)"
      and rest: "main_loop c g post = Inr (c2, g2)"
      and i: "i < 2 ^ sn" and j: "j < En"
  shows "valid (lines (sets (cache_init sn En bn) ! i) ! j) = 0 \<and>
         (valid (lines (sets c1 ! i) ! j) = valid (lines (sets c ! i) ! j) \<or>
          valid (lines (sets c ! i) ! j) = 0 \<and> valid (lines (sets c1 ! i) ! j) = 1 \<and>
          i = unat (set_index_of sn bn (address r)) \<and>
          outcome_of (lines (sets c ! i)) (tag_of sn bn (address r)) = Miss_NoEvict \<and>
          j = touched_index (lines (sets c ! i)) (tag_of sn bn (address r))) \<and>
         (valid (lines (sets c ! i) ! j) = 1 \<longrightarrow> valid (lines (sets c2 ! i) ! j) = 1)"
proof -
  from main_loop_wf[OF run cache_init_wf[OF pos]]
  have wf: "cache_wf c" and geo: "cache_s c = sn" "cache_E c = En" "cache_b c = bn"
    by (simp_all add: cache_init_def)
  from i j geo have ij: "i < 2 ^ cache_s c" "j < cache_E c" by simp_all
  from access_valid[OF wf step ij] geo
  have "valid (lines (sets c1 ! i) ! j) = valid (lines (sets c ! i) ! j) \<or>
          valid (lines (sets c ! i) ! j) = 0 \<and> valid (lines (sets c1 ! i) ! j) = 1 \<and>
          i = unat (set_index_of sn bn (address r)) \<and>
          outcome_of (lines (sets c ! i)) (tag_of sn bn (address r)) = Miss_NoEvict \<and>
          j = touched_index (lines (sets c ! i)) (tag_of sn bn (address r))"
    by simp
  moreover have "valid (lines (sets c ! i) ! j) = 1 \<longrightarrow> valid (lines (sets c2 ! i) ! j) = 1"
    using main_loop_valid[OF rest wf ij] by blast
  ultimately show ?thesis using cache_init_valid[OF i j] by blast
qed

text \<open>
  An instance: a cache of one set of two lines, after one load, at lines 0 and 1.
\<close>

theorem valid_bit_monotone_witness:
  "(0::nat) < 2 \<and> (0::nat) < 2 ^ 0 \<and> (1::nat) < 2 \<and>
   valid (lines (sets (cache_init 0 2 0) ! 0) ! 0) = 0 \<and>
   valid (lines (sets (fst (projr
      (main_loop (cache_init 0 2 0) globals_init [Load 1 1]))) ! 0) ! 0) = 1 \<and>
   valid (lines (sets (fst (projr
      (main_loop (fst (projr (main_loop (cache_init 0 2 0) globals_init [Load 1 1])))
         (snd (projr (main_loop (cache_init 0 2 0) globals_init [Load 1 1])))
         [Load 2 1, Load 3 1]))) ! 0) ! 0) = 1 \<and>
   valid (lines (sets (fst (projr
      (main_loop (cache_init 0 2 0) globals_init [Load 1 1]))) ! 0) ! 1) = 0 \<and>
   valid (lines (sets (fst (projr
      (access (fst (projr (main_loop (cache_init 0 2 0) globals_init [Load 1 1])))
         (snd (projr (main_loop (cache_init 0 2 0) globals_init [Load 1 1])))
         (Load 2 1)))) ! 0) ! 1) = 1 \<and>
   outcome_of
     (lines (sets (fst (projr (main_loop (cache_init 0 2 0) globals_init [Load 1 1]))) ! 0))
     (tag_of 0 0 (address (Load 2 1))) = Miss_NoEvict"
proof -
  let ?c = "fst (projr (main_loop (cache_init 0 2 0) globals_init [Load 1 1]))"
  let ?g = "snd (projr (main_loop (cache_init 0 2 0) globals_init [Load 1 1]))"
  let ?c1 = "fst (projr (access ?c ?g (Load 2 1)))"
  let ?g1 = "snd (projr (access ?c ?g (Load 2 1)))"
  let ?c2 = "fst (projr (main_loop ?c ?g [Load 2 1, Load 3 1]))"
  let ?g2 = "snd (projr (main_loop ?c ?g [Load 2 1, Load 3 1]))"
  have pos: "(0::nat) < 2" and i: "(0::nat) < 2 ^ 0" and j0: "(0::nat) < 2" and j1: "(1::nat) < 2"
    by simp_all
  have run: "main_loop (cache_init 0 2 0) globals_init [Load 1 1] = Inr (?c, ?g)"
    by code_simp
  have step: "access ?c ?g (Load 2 1) = Inr (?c1, ?g1)"
    by code_simp
  have rest: "main_loop ?c ?g [Load 2 1, Load 3 1] = Inr (?c2, ?g2)"
    by code_simp
  have v: "valid (lines (sets ?c ! 0) ! 0) = 1" "valid (lines (sets ?c ! 0) ! 1) = 0"
    "valid (lines (sets ?c1 ! 0) ! 1) = 1"
    by code_simp+
  note t0 = valid_bit_monotone[OF pos run step rest i j0]
  note t1 = valid_bit_monotone[OF pos run step rest i j1]
  from t0 have init: "valid (lines (sets (cache_init 0 2 0) ! 0) ! 0) = 0" by blast
  from t0 v(1) have later: "valid (lines (sets ?c2 ! 0) ! 0) = 1" by blast
  from t1 v(2,3) have "outcome_of (lines (sets ?c ! 0)) (tag_of 0 0 (address (Load 2 1)))
      = Miss_NoEvict"
    by auto
  with init later v show ?thesis by simp
qed

end
